theory Spec2Isabelle
  imports Complex_Main "HOL-Library.Sublist"
begin

section \<open>Data model\<close>

text \<open>
  The types of \<^verbatim>\<open>./types\<close> as \<^verbatim>\<open>App.tsx\<close> uses them. \<^verbatim>\<open>VideoFormat\<close> is a union of string
  literals (\<^verbatim>\<open>'shorts'\<close> is one of them), kept as a string. \<^verbatim>\<open>metrics\<close> holds the two
  formatted strings the source builds.
\<close>

datatype Status = pending | processing | uploaded | failed

datatype ProcessingStage =
    trend_scouting | strategy_mapping | script_generation | neural_rendering
  | voice_synthesis | qc_validation | publishing

type_synonym VideoFormat = string

text \<open>
  The email the login modal passes and the channel texts made from it are JavaScript
  strings as they are: lists of UTF-16 code units. \<open>js\<close> is an ASCII literal as such a
  string. All other texts are only stored and compared, and kept as \<open>string\<close>.
\<close>

type_synonym jsstring = "nat list"

definition js :: "string \<Rightarrow> jsstring" where
  "js cs = map of_char cs"

record Metrics =
  ctr :: string
  retention :: string

record UploadRecord =
  id' :: string
  timestamp :: nat
  title :: string
  description :: string
  status :: Status
  stage :: ProcessingStage
  thumbnail :: string
  format' :: VideoFormat
  trendSource :: "string option"
  sources :: "string list option"
  metrics :: "Metrics option"

record GrowthData =
  gd_title :: string
  gd_description :: string
  gd_trendTopic :: string
  gd_sources :: "string list"

record ChannelInfo =
  name :: jsstring
  handle :: jsstring
  subscribers :: jsstring
  avatar :: jsstring

text \<open>
  What the JavaScript runtime gives one event. \<^verbatim>\<open>Math.random()\<close> is an input of the
  program: \<open>rnd_id\<close> is the string \<^verbatim>\<open>Math.random().toString(36).substring(7)\<close> of
  \<^verbatim>\<open>performUpload\<close>; \<open>rnd_metrics n\<close> are the two numbers \<^verbatim>\<open>Math.random()\<close> returns, in
  source order, for the \<open>n\<close>-th record the final \<^verbatim>\<open>prev.map\<close> of a run rewrites;
  \<open>rnd_subscribers\<close> is the number it returns in \<^verbatim>\<open>setupMockChannel\<close>. The numbers are
  doubles in \<open>[0, 1)\<close>, read as the rationals they denote. \<open>toUpperCase\<close> is the runtime's
  \<^verbatim>\<open>String.prototype.toUpperCase\<close>, which the program calls and does not define.
\<close>

record Rand =
  rnd_id :: string
  rnd_metrics :: "nat \<Rightarrow> rat \<times> rat"
  rnd_subscribers :: rat
  toUpperCase :: "jsstring \<Rightarrow> jsstring"

section \<open>Strings and numbers of the JavaScript runtime\<close>

definition digit :: "nat \<Rightarrow> char" where
  "digit d = char_of (48 + d)"

fun show_nat :: "nat \<Rightarrow> string" where
  "show_nat n = (if n < 10 then [digit n] else show_nat (n div 10) @ [digit (n mod 10)])"

text \<open>
  \<^verbatim>\<open>x.toFixed(f)\<close> for \<open>x \<ge> 0\<close>: the integer \<open>n\<close> with \<open>n / 10^f\<close> nearest to \<open>x\<close>, the
  larger one on a tie, printed with \<open>f\<close> decimals. Only \<open>f = 0\<close> and \<open>f = 1\<close> occur.
\<close>

definition toFixed :: "nat \<Rightarrow> rat \<Rightarrow> string" where
  "toFixed f x =
     (let n = nat \<lfloor>x * 10 ^ f + 1 / 2\<rfloor>
      in if f = 0 then show_nat n
         else show_nat (n div 10 ^ f) @ ''.'' @ show_nat (n mod 10 ^ f))"

text \<open>
  Arithmetic on numbers is IEEE 754 binary64 arithmetic: the exact result, rounded to the
  nearest double, to the one with an even significand on a tie. \<open>double\<close> is that rounding
  for \<open>0 \<le> x < 2^1024\<close>, which covers every number the program computes: \<open>ilog2 x\<close> is
  the exponent \<open>e\<close> with \<open>2^e \<le> x < 2^(e+1)\<close>, and doubles with exponent \<open>e\<close> (at least
  \<open>-1022\<close>) are the multiples of \<open>2^(e-52)\<close>.
\<close>

definition rne :: "rat \<Rightarrow> int" where
  "rne x =
     (let n = \<lfloor>x\<rfloor>; d = x - of_int n
      in if d < 1 / 2 then n else if 1 / 2 < d then n + 1 else if even n then n else n + 1)"

function bits :: "int \<Rightarrow> int" where
  "bits n = (if n \<le> 0 then 0 else 1 + bits (n div 2))"
  by auto
termination
  by (relation "measure nat") auto

definition ilog2 :: "rat \<Rightarrow> int" where
  "ilog2 x =
     (let e = bits (fst (quotient_of x)) - bits (snd (quotient_of x))
      in if 2 powi e \<le> x then e else e - 1)"

definition double :: "rat \<Rightarrow> rat" where
  "double x =
     (if x \<le> 0 then 0
      else let e = max (ilog2 x) (- 1022); u = 2 powi (e - 52) in of_int (rne (x / u)) * u)"

text \<open>
  \<^verbatim>\<open>email.split('@')[0]\<close>: the text before the first \<^verbatim>\<open>@\<close> (code unit 64), all of it when
  there is none.
\<close>

definition before_at :: "jsstring \<Rightarrow> jsstring" where
  "before_at email = takeWhile (\<lambda>c. c \<noteq> 64) email"

definition remove_at :: "nat \<Rightarrow> 'a list \<Rightarrow> 'a list" where
  "remove_at k xs = take k xs @ drop (Suc k) xs"

section \<open>The component's state\<close>

text \<open>
  \<^verbatim>\<open>performUpload\<close> is a \<^verbatim>\<open>useCallback\<close> over \<^verbatim>\<open>[isProcessing, isConnected, niche, tone,
  format]\<close>: a call reads these five values as they were in the render that made the
  callback, not as they are when it runs. A \<^verbatim>\<open>Closure\<close> is that snapshot; two callbacks
  are the same function exactly when their snapshots are equal.
\<close>

record Closure =
  c_isProcessing :: bool
  c_isConnected :: bool
  c_niche :: string
  c_tone :: string
  c_format :: VideoFormat

text \<open>The two \<^verbatim>\<open>setInterval\<close> callbacks, and a live interval of the timer table.\<close>

datatype Callback = UploadTick Closure | CountdownTick

record Interval =
  iv_handle :: nat
  iv_due :: nat
  iv_period :: nat
  iv_callback :: Callback

text \<open>
  A call of \<^verbatim>\<open>performUpload\<close> suspended at an \<^verbatim>\<open>await\<close>: on the metadata provider, or on
  the 2000 ms timeout inside the stage loop, with the stages the loop has still to visit
  and the time the timeout is due. \<^verbatim>\<open>newId\<close> and \<^verbatim>\<open>growthData\<close> are the call's locals.
\<close>

datatype Run =
    Fetching string
  | Sleeping string GrowthData "ProcessingStage list" nat

text \<open>
  A connect attempt suspended at an \<^verbatim>\<open>await\<close>: \<^verbatim>\<open>handleGoogleLogin\<close> on
  \<^verbatim>\<open>window.aistudio.openSelectKey()\<close>, or either handler on its 1500 ms timeout, with the
  email \<^verbatim>\<open>setupMockChannel\<close> will get and the time the timeout is due.
\<close>

datatype Login =
    SelectingKey
  | Latency jsstring nat

text \<open>
  The eleven \<^verbatim>\<open>useState\<close> cells and the two \<^verbatim>\<open>useRef\<close> cells of \<^verbatim>\<open>App\<close>, then what the
  React and browser runtimes hold for it: the dependency arrays the two effects last ran
  with (\<open>None\<close> before the first render), the clock in milliseconds, the next timer
  handle, the live intervals and the suspended calls.
\<close>

record App =
  isAutoActive :: bool
  uploads :: "UploadRecord list"
  isProcessing :: bool
  niche :: string
  tone :: string
  format :: VideoFormat
  timeLeft :: int
  isConnected :: bool
  isConnecting :: bool
  showLoginModal :: bool
  channel :: "ChannelInfo option"
  timerRef :: "nat option"
  uploadTimerRef :: "nat option"
  upload_deps :: "(bool \<times> bool \<times> Closure) option"
  countdown_deps :: "(bool \<times> bool) option"
  now :: nat
  next_handle :: nat
  intervals :: "Interval list"
  runs :: "Run list"
  logins :: "Login list"

definition initial :: App where
  "initial =
     \<lparr>isAutoActive = False, uploads = [], isProcessing = False, niche = ''AI Technology'',
      tone = ''energetic'', format = ''shorts'', timeLeft = 60, isConnected = False,
      isConnecting = False, showLoginModal = False, channel = None, timerRef = None,
      uploadTimerRef = None, upload_deps = None, countdown_deps = None, now = 0,
      next_handle = 1, intervals = [], runs = [], logins = []\<rparr>"

section \<open>Timers\<close>

text \<open>
  \<^verbatim>\<open>setInterval(cb, ms)\<close> returns the handle \<open>next_handle\<close> had before the call (handles
  start at 1, so a handle is truthy). \<^verbatim>\<open>if (ref.current) clearInterval(ref.current)\<close> is
  \<open>clear_if_set\<close>: clearing a handle that is not live changes nothing.
\<close>

definition setInterval :: "Callback \<Rightarrow> nat \<Rightarrow> App \<Rightarrow> App" where
  "setInterval cb ms s =
     s\<lparr>intervals := intervals s @
          [\<lparr>iv_handle = next_handle s, iv_due = now s + ms, iv_period = ms, iv_callback = cb\<rparr>],
       next_handle := Suc (next_handle s)\<rparr>"

definition clearInterval :: "nat \<Rightarrow> App \<Rightarrow> App" where
  "clearInterval h s = s\<lparr>intervals := filter (\<lambda>i. iv_handle i \<noteq> h) (intervals s)\<rparr>"

definition clear_if_set :: "nat option \<Rightarrow> App \<Rightarrow> App" where
  "clear_if_set ref s =
     (case ref of None \<Rightarrow> s | Some h \<Rightarrow> if h = 0 then s else clearInterval h s)"

section \<open>Connection handlers\<close>

definition handleOpenLogin :: "App \<Rightarrow> App" where
  "handleOpenLogin s = s\<lparr>showLoginModal := True\<rparr>"

definition handleCloseLogin :: "App \<Rightarrow> App" where
  "handleCloseLogin s = s\<lparr>showLoginModal := False\<rparr>"

text \<open>
  \<^verbatim>\<open>setupMockChannel\<close>: \<^verbatim>\<open>charAt(0)\<close> is the first code unit as a string, empty for the
  empty string, and \<^verbatim>\<open>slice(1)\<close> the rest; \<^verbatim>\<open>Math.floor(Math.random() * 500) + 1\<close> is a
  whole number, printed in decimal.
\<close>

definition mockChannel :: "jsstring \<Rightarrow> Rand \<Rightarrow> ChannelInfo" where
  "mockChannel email r =
     (let namePart = before_at email;
          channelName = toUpperCase r (take 1 namePart) @ drop 1 namePart @ js '' Studio''
      in \<lparr>name = channelName,
          handle = js ''@'' @ namePart,
          subscribers = js (show_nat (nat \<lfloor>double (rnd_subscribers r * 500)\<rfloor> + 1)) @ js ''K'',
          avatar = js ''https://api.dicebear.com/7.x/avataaars/svg?seed='' @ namePart\<rparr>)"

definition setupMockChannel :: "jsstring \<Rightarrow> Rand \<Rightarrow> App \<Rightarrow> App" where
  "setupMockChannel email r s = s\<lparr>channel := Some (mockChannel email r), isConnected := True\<rparr>"

text \<open>\<^verbatim>\<open>handleConnect\<close> up to its \<^verbatim>\<open>await\<close>, and from the timeout on.\<close>

definition handleConnect :: "jsstring \<Rightarrow> App \<Rightarrow> App" where
  "handleConnect email s =
     s\<lparr>isConnecting := True, logins := logins s @ [Latency email (now s + 1500)]\<rparr>"

definition handleConnect_resume :: "nat \<Rightarrow> Rand \<Rightarrow> App \<Rightarrow> App" where
  "handleConnect_resume k r s =
     (if k < length (logins s) then
        (case logins s ! k of
           Latency email due \<Rightarrow>
             if due \<le> now s then
               (setupMockChannel email r s)
                 \<lparr>isConnecting := False, showLoginModal := False, logins := remove_at k (logins s)\<rparr>
             else s
         | SelectingKey \<Rightarrow> s)
      else s)"

text \<open>
  \<^verbatim>\<open>handleGoogleLogin\<close>: with \<^verbatim>\<open>window.aistudio\<close> it awaits \<^verbatim>\<open>openSelectKey()\<close>, then does
  what \<^verbatim>\<open>handleConnect\<close> does for \<^verbatim>\<open>google.user@gmail.com\<close>; a rejection lands in the
  \<^verbatim>\<open>catch\<close>. Without it, it calls \<^verbatim>\<open>handleConnect\<close>.
\<close>

definition handleGoogleLogin :: "bool \<Rightarrow> App \<Rightarrow> App" where
  "handleGoogleLogin aistudio s =
     (if aistudio then s\<lparr>logins := logins s @ [SelectingKey]\<rparr>
      else handleConnect (js ''google.user@gmail.com'') s)"

definition handleGoogleLogin_selected :: "nat \<Rightarrow> App \<Rightarrow> App" where
  "handleGoogleLogin_selected k s =
     (if k < length (logins s) then
        (case logins s ! k of
           SelectingKey \<Rightarrow>
             s\<lparr>isConnecting := True,
               logins := (logins s)[k := Latency (js ''google.user@gmail.com'') (now s + 1500)]\<rparr>
         | Latency email due \<Rightarrow> s)
      else s)"

definition handleGoogleLogin_rejected :: "nat \<Rightarrow> App \<Rightarrow> App" where
  "handleGoogleLogin_rejected k s =
     (if k < length (logins s) then
        (case logins s ! k of
           SelectingKey \<Rightarrow> s\<lparr>isConnecting := False, logins := remove_at k (logins s)\<rparr>
         | Latency email due \<Rightarrow> s)
      else s)"

definition handleDisconnect :: "App \<Rightarrow> App" where
  "handleDisconnect s = s\<lparr>isAutoActive := False, isConnected := False, channel := None\<rparr>"

section \<open>performUpload\<close>

definition initialRecord :: "string \<Rightarrow> nat \<Rightarrow> VideoFormat \<Rightarrow> UploadRecord" where
  "initialRecord newId t fmt =
     \<lparr>id' = newId,
      timestamp = t,
      title = ''Detecting High-Velocity Signals...'',
      description = ''ViralGrowth Engine is currently scanning global trends for peak virality...'',
      status = pending,
      stage = trend_scouting,
      thumbnail = ''https://images.unsplash.com/photo-1618005182384-a83a8bd57fbe?w=800&auto=format&fit=crop&q=60&seed='' @ newId,
      format' = fmt,
      trendSource = None,
      sources = None,
      metrics = None\<rparr>"

text \<open>
  The synchronous head of \<^verbatim>\<open>performUpload\<close>, up to the \<^verbatim>\<open>await\<close> on the provider. The
  guard reads the closure; the setters write the state.
\<close>

definition performUpload :: "Closure \<Rightarrow> Rand \<Rightarrow> App \<Rightarrow> App" where
  "performUpload c r s =
     (if c_isProcessing c \<or> \<not> c_isConnected c then s
      else
        let newId = rnd_id r
        in s\<lparr>isProcessing := True,
             uploads := initialRecord newId (now s) (c_format c) # uploads s,
             runs := runs s @ [Fetching newId]\<rparr>)"

definition stages :: "ProcessingStage list" where
  "stages =
     [strategy_mapping, script_generation, neural_rendering, voice_synthesis, qc_validation,
      publishing]"

text \<open>
  The three updaters \<^verbatim>\<open>performUpload\<close> passes to \<^verbatim>\<open>prev.map\<close>. The last one calls
  \<^verbatim>\<open>Math.random()\<close> twice for every record it rewrites, so the map hands each such record
  its own two draws: \<open>map_uploaded\<close> counts the records rewritten so far.
\<close>

definition mark_stage :: "string \<Rightarrow> GrowthData \<Rightarrow> ProcessingStage \<Rightarrow> UploadRecord \<Rightarrow> UploadRecord" where
  "mark_stage newId g st u =
     (if id' u = newId then
        u\<lparr>title := gd_title g, description := gd_description g, status := processing,
          stage := st, trendSource := Some (gd_trendTopic g), sources := Some (gd_sources g)\<rparr>
      else u)"

definition ctr_value :: "rat \<Rightarrow> rat" where
  "ctr_value d = double (double (d * 8) + 4)"

definition retention_value :: "rat \<Rightarrow> rat" where
  "retention_value d = double (double (d * 20) + 70)"

definition mark_uploaded :: "string \<Rightarrow> rat \<times> rat \<Rightarrow> UploadRecord \<Rightarrow> UploadRecord" where
  "mark_uploaded newId d u =
     u\<lparr>status := uploaded,
       stage := publishing,
       metrics := Some \<lparr>ctr = toFixed 1 (ctr_value (fst d)) @ ''%'',
                        retention = toFixed 0 (retention_value (snd d)) @ ''%''\<rparr>,
       thumbnail := ''https://images.unsplash.com/photo-1620641788421-7a1c342ea42e?w=800&auto=format&fit=crop&q=60&seed='' @ newId\<rparr>"

fun map_uploaded :: "string \<Rightarrow> (nat \<Rightarrow> rat \<times> rat) \<Rightarrow> nat \<Rightarrow> UploadRecord list \<Rightarrow> UploadRecord list" where
  "map_uploaded newId draws n [] = []"
| "map_uploaded newId draws n (u # us) =
     (if id' u = newId then mark_uploaded newId (draws n) u # map_uploaded newId draws (Suc n) us
      else u # map_uploaded newId draws n us)"

definition mark_failed :: "string \<Rightarrow> UploadRecord \<Rightarrow> UploadRecord" where
  "mark_failed newId u = (if id' u = newId then u\<lparr>status := failed\<rparr> else u)"

text \<open>
  The \<^verbatim>\<open>for (const stage of stages)\<close> loop from the stage list still to visit: one
  iteration up to its \<^verbatim>\<open>await\<close>, or, the list exhausted, the code after the loop and the
  \<^verbatim>\<open>finally\<close>. \<open>k\<close> is the position of the suspended call in \<open>runs\<close>.
\<close>

fun performUpload_loop :: "nat \<Rightarrow> string \<Rightarrow> GrowthData \<Rightarrow> ProcessingStage list \<Rightarrow> Rand \<Rightarrow> App \<Rightarrow> App" where
  "performUpload_loop k newId g (st # rest) r s =
     s\<lparr>uploads := map (mark_stage newId g st) (uploads s),
       runs := (runs s)[k := Sleeping newId g rest (now s + 2000)]\<rparr>"
| "performUpload_loop k newId g [] r s =
     s\<lparr>uploads := map_uploaded newId (rnd_metrics r) 0 (uploads s),
       isProcessing := False,
       runs := remove_at k (runs s)\<rparr>"

text \<open>The provider resolves with \<open>g\<close>; the provider rejects; a stage timeout fires.\<close>

definition performUpload_fetched :: "nat \<Rightarrow> GrowthData \<Rightarrow> Rand \<Rightarrow> App \<Rightarrow> App" where
  "performUpload_fetched k g r s =
     (if k < length (runs s) then
        (case runs s ! k of
           Fetching newId \<Rightarrow> performUpload_loop k newId g stages r s
         | Sleeping newId g' rest due \<Rightarrow> s)
      else s)"

definition performUpload_failed :: "nat \<Rightarrow> App \<Rightarrow> App" where
  "performUpload_failed k s =
     (if k < length (runs s) then
        (case runs s ! k of
           Fetching newId \<Rightarrow>
             s\<lparr>uploads := map (mark_failed newId) (uploads s),
               isProcessing := False,
               runs := remove_at k (runs s)\<rparr>
         | Sleeping newId g' rest due \<Rightarrow> s)
      else s)"

definition performUpload_resume :: "nat \<Rightarrow> Rand \<Rightarrow> App \<Rightarrow> App" where
  "performUpload_resume k r s =
     (if k < length (runs s) then
        (case runs s ! k of
           Sleeping newId g rest due \<Rightarrow>
             if due \<le> now s then performUpload_loop k newId g rest r s else s
         | Fetching newId \<Rightarrow> s)
      else s)"

text \<open>
  \<^verbatim>\<open>Dashboard\<close> calling the \<^verbatim>\<open>onManualTrigger\<close> it was rendered with, once for every id
  in \<open>newIds\<close> (the id the call draws): each call is a call of the closure \<open>c\<close>.
\<close>

definition onManualTrigger :: "Closure \<Rightarrow> Rand \<Rightarrow> string list \<Rightarrow> App \<Rightarrow> App" where
  "onManualTrigger c r newIds s = foldl (\<lambda>t i. performUpload c (r\<lparr>rnd_id := i\<rparr>) t) s newIds"

section \<open>The two effects\<close>

definition closure :: "App \<Rightarrow> Closure" where
  "closure s =
     \<lparr>c_isProcessing = isProcessing s, c_isConnected = isConnected s, c_niche = niche s,
      c_tone = tone s, c_format = format s\<rparr>"

text \<open>The interval callbacks.\<close>

definition upload_tick :: "Closure \<Rightarrow> Rand \<Rightarrow> App \<Rightarrow> App" where
  "upload_tick c r s = (performUpload c r s)\<lparr>timeLeft := 60\<rparr>"

definition countdown_tick :: "App \<Rightarrow> App" where
  "countdown_tick s = s\<lparr>timeLeft := (if timeLeft s > 1 then timeLeft s - 1 else 60)\<rparr>"

text \<open>
  The upload-timer effect, dependencies \<^verbatim>\<open>[isAutoActive, isConnected, performUpload]\<close>: its
  body, with the values of the render it belongs to, and its cleanup.
\<close>

definition upload_effect :: "bool \<Rightarrow> bool \<Rightarrow> Closure \<Rightarrow> Rand \<Rightarrow> App \<Rightarrow> App" where
  "upload_effect auto conn c r s =
     (if auto \<and> conn then
        let s1 = (performUpload c r s)\<lparr>timeLeft := 60\<rparr>;
            interval = next_handle s1;
            s2 = setInterval (UploadTick c) 60000 s1
        in s2\<lparr>uploadTimerRef := Some interval\<rparr>
      else clear_if_set (uploadTimerRef s) s)"

definition upload_cleanup :: "App \<Rightarrow> App" where
  "upload_cleanup s = clear_if_set (uploadTimerRef s) s"

text \<open>The countdown effect, dependencies \<^verbatim>\<open>[isAutoActive, isConnected]\<close>.\<close>

definition countdown_effect :: "bool \<Rightarrow> bool \<Rightarrow> App \<Rightarrow> App" where
  "countdown_effect auto conn s =
     (if auto \<and> conn then
        let interval = next_handle s;
            s1 = setInterval CountdownTick 1000 s
        in s1\<lparr>timerRef := Some interval\<rparr>
      else (clear_if_set (timerRef s) s)\<lparr>timeLeft := 60\<rparr>)"

definition countdown_cleanup :: "App \<Rightarrow> App" where
  "countdown_cleanup s = clear_if_set (timerRef s) s"

text \<open>
  One commit: React compares each effect's dependencies with those of its last run; for
  every effect that changed it runs the cleanups (none on the first render), then the
  bodies, in source order.
\<close>

definition upload_effect_deps :: "App \<Rightarrow> bool \<times> bool \<times> Closure" where
  "upload_effect_deps s = (isAutoActive s, isConnected s, closure s)"

definition countdown_effect_deps :: "App \<Rightarrow> bool \<times> bool" where
  "countdown_effect_deps s = (isAutoActive s, isConnected s)"

definition upload_stale :: "App \<Rightarrow> bool" where
  "upload_stale s \<longleftrightarrow> upload_deps s \<noteq> Some (upload_effect_deps s)"

definition countdown_stale :: "App \<Rightarrow> bool" where
  "countdown_stale s \<longleftrightarrow> countdown_deps s \<noteq> Some (countdown_effect_deps s)"

definition stale :: "App \<Rightarrow> bool" where
  "stale s \<longleftrightarrow> upload_stale s \<or> countdown_stale s"

definition cleanups :: "App \<Rightarrow> App" where
  "cleanups s =
     (let s1 = (if upload_stale s \<and> upload_deps s \<noteq> None then upload_cleanup s else s)
      in if countdown_stale s \<and> countdown_deps s \<noteq> None then countdown_cleanup s1 else s1)"

text \<open>The bodies read the render \<open>s0\<close> they were made in and act on the state \<open>s\<close>.\<close>

definition bodies :: "App \<Rightarrow> Rand \<Rightarrow> App \<Rightarrow> App" where
  "bodies s0 r s =
     (let auto = isAutoActive s0; conn = isConnected s0; c = closure s0;
          s1 = (if upload_stale s0
                then (upload_effect auto conn c r s)\<lparr>upload_deps := Some (auto, conn, c)\<rparr>
                else s)
      in if countdown_stale s0
         then (countdown_effect auto conn s1)\<lparr>countdown_deps := Some (auto, conn)\<rparr>
         else s1)"

definition commit :: "Rand \<Rightarrow> App \<Rightarrow> App" where
  "commit r s = bodies s r (cleanups s)"

text \<open>
  Effects set state, which renders again: React commits until no effect's dependencies
  have changed.
\<close>

function settle :: "Rand \<Rightarrow> App \<Rightarrow> App" where
  "settle r s = (if stale s then settle r (commit r s) else s)"
  by pat_completeness auto
termination
proof (relation "measure (\<lambda>(r, s). (if isProcessing s then 0 else 2) + (if stale s then 1 else 0))")
  show "wf (measure (\<lambda>(r, s). (if isProcessing s then 0 else 2) + (if stale s then 1 else (0::nat))))"
    by simp
next
  fix r :: Rand and s :: App
  assume st: "stale s"
  have clr: "\<And>ref t. clear_if_set ref t =
      t\<lparr>intervals := (case ref of None \<Rightarrow> intervals t
           | Some h \<Rightarrow> if h = 0 then intervals t else filter (\<lambda>i. iv_handle i \<noteq> h) (intervals t))\<rparr>"
    by (simp add: clear_if_set_def clearInterval_def split: option.splits)
  have pu: "\<And>c t. performUpload c r t =
      t\<lparr>isProcessing := (if c_isProcessing c \<or> \<not> c_isConnected c then isProcessing t else True),
        uploads := (if c_isProcessing c \<or> \<not> c_isConnected c then uploads t
                    else initialRecord (rnd_id r) (now t) (c_format c) # uploads t),
        runs := (if c_isProcessing c \<or> \<not> c_isConnected c then runs t
                 else runs t @ [Fetching (rnd_id r)])\<rparr>"
    by (simp add: performUpload_def Let_def)
  note defs = commit_def cleanups_def bodies_def upload_stale_def countdown_stale_def Let_def
    upload_effect_def upload_cleanup_def countdown_effect_def countdown_cleanup_def clr
    setInterval_def pu
  have same: "isAutoActive (commit r s) = isAutoActive s" "isConnected (commit r s) = isConnected s"
    "niche (commit r s) = niche s" "tone (commit r s) = tone s" "format (commit r s) = format s"
    by (simp_all add: defs)
  have deps: "upload_deps (commit r s) = Some (upload_effect_deps s)"
    "countdown_deps (commit r s) = Some (countdown_effect_deps s)"
    by (simp_all add: defs upload_effect_deps_def countdown_effect_deps_def)
  have mono: "isProcessing s \<Longrightarrow> isProcessing (commit r s)"
    by (simp add: defs closure_def)
  have fresh: "isProcessing (commit r s) = isProcessing s \<Longrightarrow> \<not> stale (commit r s)"
    using same deps
    by (simp add: stale_def upload_stale_def countdown_stale_def upload_effect_deps_def
        countdown_effect_deps_def closure_def)
  show "((r, commit r s), (r, s)) \<in>
      measure (\<lambda>(r, s). (if isProcessing s then 0 else 2) + (if stale s then 1 else 0))"
    using st mono fresh by (cases "isProcessing s"; cases "isProcessing (commit r s)") auto
qed

declare settle.simps [simp del]

section \<open>Events\<close>

text \<open>
  Time passes only up to the next timer that is due: \<open>elapse d\<close> is refused when it would
  skip one. A timer fires through its own event, once it is due.
\<close>

fun run_due :: "Run \<Rightarrow> nat option" where
  "run_due (Fetching newId) = None"
| "run_due (Sleeping newId g rest due) = Some due"

fun login_due :: "Login \<Rightarrow> nat option" where
  "login_due SelectingKey = None"
| "login_due (Latency email due) = Some due"

definition dues :: "App \<Rightarrow> nat list" where
  "dues s =
     map iv_due (intervals s) @ List.map_filter run_due (runs s) @
     List.map_filter login_due (logins s)"

definition elapse :: "nat \<Rightarrow> App \<Rightarrow> App" where
  "elapse d s = (if list_all (\<lambda>t. now s + d \<le> t) (dues s) then s\<lparr>now := now s + d\<rparr> else s)"

definition reschedule :: "nat \<Rightarrow> Interval \<Rightarrow> Interval" where
  "reschedule h i = (if iv_handle i = h then i\<lparr>iv_due := iv_due i + iv_period i\<rparr> else i)"

definition fire_interval :: "nat \<Rightarrow> Rand \<Rightarrow> App \<Rightarrow> App" where
  "fire_interval h r s =
     (case find (\<lambda>i. iv_handle i = h) (intervals s) of
        None \<Rightarrow> s
      | Some i \<Rightarrow>
          if iv_due i \<le> now s then
            let s1 = s\<lparr>intervals := map (reschedule h) (intervals s)\<rparr>
            in (case iv_callback i of
                  UploadTick c \<Rightarrow> upload_tick c r s1
                | CountdownTick \<Rightarrow> countdown_tick s1)
          else s)"

text \<open>
  What can happen to the component: time passing, the callbacks it hands to
  \<^verbatim>\<open>Dashboard\<close> and \<^verbatim>\<open>LoginModal\<close> (the modal's only while it is rendered), the settling
  of a promise it awaits, and a timer firing. Suspended calls are named by their position
  in \<open>runs\<close> and \<open>logins\<close>, intervals by their handle.

  \<^verbatim>\<open>onManualTrigger\<close> is the \<^verbatim>\<open>performUpload\<close> of the last render, and \<^verbatim>\<open>Dashboard\<close> may
  call it more than once before React renders again: \<open>ManualTrigger again\<close> is one call,
  and one more for every element of \<open>again\<close>, the id that call draws. All of them are
  calls of the same closure.
\<close>

datatype Event =
    Elapse nat
  | OpenLogin
  | CloseLogin
  | Login jsstring
  | GoogleLogin bool
  | KeySelected nat
  | KeyRejected nat
  | LoginTimeout nat
  | Disconnect
  | ToggleAuto
  | SetNiche string
  | SetTone string
  | SetFormat VideoFormat
  | ManualTrigger "string list"
  | FetchResolved nat GrowthData
  | FetchRejected nat
  | StageTimeout nat
  | IntervalFire nat

fun dispatch :: "Rand \<Rightarrow> Event \<Rightarrow> App \<Rightarrow> App" where
  "dispatch r (Elapse d) s = elapse d s"
| "dispatch r OpenLogin s = handleOpenLogin s"
| "dispatch r CloseLogin s = (if showLoginModal s then handleCloseLogin s else s)"
| "dispatch r (Login email) s = (if showLoginModal s then handleConnect email s else s)"
| "dispatch r (GoogleLogin aistudio) s =
     (if showLoginModal s then handleGoogleLogin aistudio s else s)"
| "dispatch r (KeySelected k) s = handleGoogleLogin_selected k s"
| "dispatch r (KeyRejected k) s = handleGoogleLogin_rejected k s"
| "dispatch r (LoginTimeout k) s = handleConnect_resume k r s"
| "dispatch r Disconnect s = handleDisconnect s"
| "dispatch r ToggleAuto s = s\<lparr>isAutoActive := \<not> isAutoActive s\<rparr>"
| "dispatch r (SetNiche v) s = s\<lparr>niche := v\<rparr>"
| "dispatch r (SetTone v) s = s\<lparr>tone := v\<rparr>"
| "dispatch r (SetFormat v) s = s\<lparr>format := v\<rparr>"
| "dispatch r (ManualTrigger again) s = onManualTrigger (closure s) r (rnd_id r # again) s"
| "dispatch r (FetchResolved k g) s = performUpload_fetched k g r s"
| "dispatch r (FetchRejected k) s = performUpload_failed k s"
| "dispatch r (StageTimeout k) s = performUpload_resume k r s"
| "dispatch r (IntervalFire h) s = fire_interval h r s"

text \<open>An event runs its handler, then React renders and settles the effects.\<close>

definition step :: "Rand \<times> Event \<Rightarrow> App \<Rightarrow> App" where
  "step i s = settle (fst i) (dispatch (fst i) (snd i) s)"

fun exec :: "(Rand \<times> Event) list \<Rightarrow> App \<Rightarrow> App" where
  "exec [] s = s"
| "exec (i # is) s = exec is (step i s)"

text \<open>The component after its first render; the effects draw nothing there.\<close>

definition no_rand :: Rand where
  "no_rand =
     \<lparr>rnd_id = [], rnd_metrics = (\<lambda>n. (0, 0)), rnd_subscribers = 0, toUpperCase = (\<lambda>x. x)\<rparr>"

definition mounted :: App where
  "mounted = settle no_rand initial"

section \<open>Predicates on states\<close>

text \<open>A closure whose guard lets \<^verbatim>\<open>performUpload\<close> through.\<close>

definition starts :: "Closure \<Rightarrow> bool" where
  "starts c \<longleftrightarrow> \<not> c_isProcessing c \<and> c_isConnected c"

definition active :: "App \<Rightarrow> bool" where
  "active s \<longleftrightarrow> isAutoActive s \<and> isConnected s"

text \<open>The upload effect is about to run in a render that is active and idle.\<close>

definition fires :: "App \<Rightarrow> bool" where
  "fires s \<longleftrightarrow> upload_stale s \<and> active s \<and> \<not> isProcessing s"

definition is_upload :: "Interval \<Rightarrow> bool" where
  "is_upload i \<longleftrightarrow> iv_callback i \<noteq> CountdownTick"

text \<open>
  Every live interval is the one its effect's ref names, handles are positive, below
  \<open>next_handle\<close> and pairwise different, and the two refs never name the same handle.
\<close>

definition handles_ok :: "App \<Rightarrow> bool" where
  "handles_ok s \<longleftrightarrow>
     0 < next_handle s \<and>
     (\<forall>i \<in> set (intervals s). 0 < iv_handle i \<and> iv_handle i < next_handle s \<and>
        (if is_upload i then uploadTimerRef s = Some (iv_handle i)
         else timerRef s = Some (iv_handle i))) \<and>
     distinct (map iv_handle (intervals s)) \<and>
     (\<forall>h. uploadTimerRef s = Some h \<longrightarrow> h < next_handle s \<and> timerRef s \<noteq> Some h) \<and>
     (\<forall>h. timerRef s = Some h \<longrightarrow> h < next_handle s)"

text \<open>
  A live interval was armed by the last run of its effect, in an active render, with the
  callback of that render; and an effect that last ran in an active render has its
  interval live.
\<close>

definition deps_ok :: "App \<Rightarrow> bool" where
  "deps_ok s \<longleftrightarrow>
     (\<forall>i \<in> set (intervals s).
        case iv_callback i of
          UploadTick c \<Rightarrow> upload_deps s = Some (True, True, c) \<and> iv_period i = 60000
        | CountdownTick \<Rightarrow> countdown_deps s = Some (True, True) \<and> iv_period i = 1000) \<and>
     (\<forall>c. upload_deps s = Some (True, True, c) \<longrightarrow>
        (\<exists>i \<in> set (intervals s). iv_callback i = UploadTick c)) \<and>
     (countdown_deps s = Some (True, True) \<longrightarrow>
        (\<exists>i \<in> set (intervals s). iv_callback i = CountdownTick))"

text \<open>The intervals a commit leaves alone, and the two it can arm.\<close>

definition keep :: "App \<Rightarrow> Interval \<Rightarrow> bool" where
  "keep s i \<longleftrightarrow> (if is_upload i then \<not> upload_stale s else \<not> countdown_stale s)"

definition upload_iv :: "App \<Rightarrow> Interval" where
  "upload_iv s =
     \<lparr>iv_handle = next_handle s, iv_due = now s + 60000, iv_period = 60000,
      iv_callback = UploadTick (closure s)\<rparr>"

definition countdown_iv :: "App \<Rightarrow> Interval" where
  "countdown_iv s =
     \<lparr>iv_handle = next_handle s + (if upload_stale s then 1 else 0), iv_due = now s + 1000,
      iv_period = 1000, iv_callback = CountdownTick\<rparr>"

text \<open>No timer is overdue.\<close>

definition punctual :: "App \<Rightarrow> bool" where
  "punctual s \<longleftrightarrow> list_all (\<lambda>t. now s \<le> t) (dues s)"

text \<open>The countdown is in range, and at 60 unless the countdown effect last ran active.\<close>

definition clock_ok :: "App \<Rightarrow> bool" where
  "clock_ok s \<longleftrightarrow>
     1 \<le> timeLeft s \<and> timeLeft s \<le> 60 \<and>
     (countdown_deps s \<noteq> Some (True, True) \<longrightarrow> timeLeft s = 60)"

text \<open>What holds of the component between two events.\<close>

definition invariant :: "App \<Rightarrow> bool" where
  "invariant s \<longleftrightarrow>
     handles_ok s \<and> deps_ok s \<and> \<not> stale s \<and> clock_ok s \<and> punctual s \<and>
     (active s \<longrightarrow> isProcessing s)"

text \<open>
  The store: its ids, newest first, and its records counted from the oldest, so that a
  record keeps its number when newer ones are put in front of it.
\<close>

definition ids :: "App \<Rightarrow> string list" where
  "ids s = map id' (uploads s)"

definition nth_record :: "App \<Rightarrow> nat \<Rightarrow> UploadRecord" where
  "nth_record s k = rev (uploads s) ! k"

definition in_flight :: "UploadRecord \<Rightarrow> bool" where
  "in_flight u \<longleftrightarrow> status u = pending \<or> status u = processing"

text \<open>
  A suspended call against the record it made: \<open>pending\<close> at \<open>trend_scouting\<close> while the
  provider is awaited, \<open>processing\<close> afterwards, with its stage and the stages the loop has
  still to visit a tail of the stage list.
\<close>

fun run_id :: "Run \<Rightarrow> string" where
  "run_id (Fetching newId) = newId"
| "run_id (Sleeping newId g rest due) = newId"

fun expected :: "Run \<Rightarrow> UploadRecord \<Rightarrow> bool" where
  "expected (Fetching newId) u \<longleftrightarrow> status u = pending \<and> stage u = trend_scouting"
| "expected (Sleeping newId g rest due) u \<longleftrightarrow>
     status u = processing \<and> suffix (stage u # rest) stages"

text \<open>
  The guard is up only while a call is suspended, and every suspended call has a record
  with its id.
\<close>

definition runs_ok :: "App \<Rightarrow> bool" where
  "runs_ok s \<longleftrightarrow>
     (isProcessing s \<longrightarrow> runs s \<noteq> []) \<and> (\<forall>x \<in> set (runs s). run_id x \<in> set (ids s))"

text \<open>
  While the ids in the store are pairwise different: so are the ids of the suspended
  calls, the record of a suspended call is as that call expects it, and every other record
  is \<open>uploaded\<close> or \<open>failed\<close>.
\<close>

definition store_ok :: "App \<Rightarrow> bool" where
  "store_ok s \<longleftrightarrow>
     (distinct (ids s) \<longrightarrow>
        distinct (map run_id (runs s)) \<and>
        (\<forall>u \<in> set (uploads s).
           (\<forall>x \<in> set (runs s). run_id x = id' u \<longrightarrow> expected x u) \<and>
           ((\<forall>x \<in> set (runs s). run_id x \<noteq> id' u) \<longrightarrow> \<not> in_flight u)))"

section \<open>Sample inputs\<close>

text \<open>
  Draws (with an upper-casing of the ASCII letters for \<open>toUpperCase\<close>), a provider result
  and a connect sequence, for concrete runs.
\<close>

definition ascii_upper :: "jsstring \<Rightarrow> jsstring" where
  "ascii_upper cs = map (\<lambda>c. if 97 \<le> c \<and> c \<le> 122 then c - 32 else c) cs"

definition rnd :: "string \<Rightarrow> Rand" where
  "rnd i =
     \<lparr>rnd_id = i, rnd_metrics = (\<lambda>n. (1 / 2, 1 / 4)), rnd_subscribers = 1 / 10,
      toUpperCase = ascii_upper\<rparr>"

definition growth :: GrowthData where
  "growth = \<lparr>gd_title = ''T'', gd_description = ''D'', gd_trendTopic = ''X'', gd_sources = []\<rparr>"

definition connecting :: "(Rand \<times> Event) list" where
  "connecting =
     [(rnd ''a'', OpenLogin), (rnd ''a'', Login (js ''bob@x.org'')), (rnd ''a'', Elapse 1500),
      (rnd ''a'', LoginTimeout 0)]"

section \<open>Basic facts\<close>

declare show_nat.simps [simp del]

declare bits.simps [simp del]

lemma show_nat_nonempty: "show_nat n \<noteq> []"
  by (subst show_nat.simps) simp

subsection \<open>Rounding\<close>

lemma bits_bounds_int: "0 < n \<Longrightarrow> 1 \<le> bits n \<and> 2 ^ nat (bits n - 1) \<le> n \<and> n < 2 ^ nat (bits n)"
proof (induction n rule: bits.induct)
  case (1 n)
  show ?case
  proof (cases "n div 2 = 0")
    case True
    then have "n = 1" using 1(2) by auto
    then show ?thesis by (simp add: bits.simps)
  next
    case False
    then have pos: "0 < n div 2" using 1(2) by (simp add: pos_imp_zdiv_pos_iff)
    then have ih: "1 \<le> bits (n div 2)" "2 ^ nat (bits (n div 2) - 1) \<le> n div 2"
      "n div 2 < 2 ^ nat (bits (n div 2))"
      using 1 by auto
    have b: "bits n = 1 + bits (n div 2)" using 1(2) by (subst bits.simps) simp
    have l: "2 * (n div 2) \<le> n" and u: "n < 2 * (n div 2) + 2" by presburger+
    have e: "nat (bits (n div 2)) = Suc (nat (bits (n div 2) - 1))" using ih(1) by simp
    have "(2::int) ^ nat (bits (n div 2)) = 2 * 2 ^ nat (bits (n div 2) - 1)"
      by (subst e) simp
    then have 1: "(2::int) ^ nat (bits (n div 2)) \<le> n" using ih(2) l by linarith
    have f: "nat (1 + bits (n div 2)) = Suc (nat (bits (n div 2)))" using ih(1) by simp
    have 2: "n < 2 ^ nat (1 + bits (n div 2))" using ih(3) u by (subst f) simp
    show ?thesis using 1 2 ih(1) by (simp add: b)
  qed
qed

lemma bits_bounds:
  assumes "0 < n"
  shows "(2::rat) powi (bits n - 1) \<le> of_int n" "of_int n < (2::rat) powi bits n"
proof -
  note b = bits_bounds_int [OF assms]
  have "(2::rat) powi (bits n - 1) = of_int (2 ^ nat (bits n - 1))"
    using b by (simp add: power_int_def)
  also have "\<dots> \<le> of_int n" using b by (subst of_int_le_iff) simp
  finally show "(2::rat) powi (bits n - 1) \<le> of_int n" .
  have "(of_int n :: rat) < of_int (2 ^ nat (bits n))" using b by (subst of_int_less_iff) simp
  also have "\<dots> = 2 powi bits n" using b by (simp add: power_int_def)
  finally show "of_int n < (2::rat) powi bits n" .
qed

lemma ilog2_bounds:
  assumes "0 < x"
  shows "2 powi ilog2 x \<le> x" "x < 2 powi (ilog2 x + 1)"
proof -
  obtain p q where pq: "quotient_of x = (p, q)" by (cases "quotient_of x")
  then have q: "0 < q" and x: "x = of_int p / of_int q"
    by (simp_all add: quotient_of_denom_pos quotient_of_div)
  have p: "0 < p" using assms q x by (simp add: zero_less_divide_iff)
  let ?e = "bits p - bits q"
  note bp = bits_bounds [OF p] and bq = bits_bounds [OF q]
  have qq: "(0::rat) < of_int q" using q by simp
  have lo: "2 powi (?e - 1) \<le> x"
  proof -
    have "(2::rat) powi (?e - 1) = 2 powi (bits p - 1) / 2 powi bits q"
      by (simp add: power_int_diff)
    also have "\<dots> \<le> of_int p / 2 powi bits q"
      using bp(1) by (simp add: divide_right_mono)
    also have "\<dots> \<le> of_int p / of_int q"
      using bq(2) p qq by (intro divide_left_mono) (simp_all add: less_imp_le)
    finally show ?thesis by (simp add: x)
  qed
  have hi: "x < 2 powi (?e + 1)"
  proof -
    have "x = of_int p / of_int q" by (rule x)
    also have "\<dots> < 2 powi bits p / of_int q"
      using bp(2) qq by (simp add: divide_strict_right_mono)
    also have "\<dots> \<le> 2 powi bits p / 2 powi (bits q - 1)"
      using bq(1) qq by (intro divide_left_mono) (simp_all add: zero_less_mult_iff)
    also have "\<dots> = 2 powi (?e + 1)"
      by (simp add: power_int_diff power_int_add)
    finally show ?thesis .
  qed
  have il: "ilog2 x = (if 2 powi ?e \<le> x then ?e else ?e - 1)"
    by (simp add: ilog2_def pq)
  show "2 powi ilog2 x \<le> x" using lo by (simp add: il)
  show "x < 2 powi (ilog2 x + 1)" using hi by (auto simp add: il not_le)
qed

lemma pow2_lessD: "(2::rat) powi a < 2 powi b \<Longrightarrow> a < b"
  using power_int_increasing [of b a "2::rat"] by (cases "a < b") simp_all

lemma ilog2_unique:
  assumes "2 powi e \<le> x" "x < 2 powi (e + 1)"
  shows "ilog2 x = e"
proof -
  have pos: "0 < x" using assms(1) by (rule less_le_trans [rotated]) simp
  note b = ilog2_bounds [OF pos]
  have "(2::rat) powi e < 2 powi (ilog2 x + 1)" using assms(1) b(2) by simp
  then have 1: "e < ilog2 x + 1" by (rule pow2_lessD)
  have "(2::rat) powi ilog2 x < 2 powi (e + 1)" using assms(2) b(1) by simp
  then have 2: "ilog2 x < e + 1" by (rule pow2_lessD)
  show ?thesis using 1 2 by simp
qed

lemma rne_ge: "of_int a \<le> x \<Longrightarrow> a \<le> rne x"
proof -
  assume "of_int a \<le> x"
  then have "a \<le> \<lfloor>x\<rfloor>" by (simp add: le_floor_iff)
  then show ?thesis by (auto simp: rne_def Let_def)
qed

lemma rne_le:
  assumes "x \<le> of_int b"
  shows "rne x \<le> b"
proof (cases "x = of_int \<lfloor>x\<rfloor>")
  case True
  then have "x - of_int \<lfloor>x\<rfloor> = 0" by simp
  moreover have "\<lfloor>x\<rfloor> \<le> b" using assms floor_mono by fastforce
  ultimately show ?thesis by (simp add: rne_def Let_def)
next
  case False
  have "\<lfloor>x\<rfloor> < b"
  proof (rule ccontr)
    assume "\<not> \<lfloor>x\<rfloor> < b"
    then have "of_int b \<le> (of_int \<lfloor>x\<rfloor> :: rat)" by simp
    then have "x \<le> of_int \<lfloor>x\<rfloor>" using assms by simp
    then show False using False of_int_floor_le [of x] by simp
  qed
  then show ?thesis by (auto simp: rne_def Let_def)
qed

lemma rne_of_int [simp]: "rne (of_int n) = n"
  by (simp add: rne_def)


text \<open>A value between two points of its binade's grid is rounded to between them.\<close>

lemma double_between:
  assumes "2 powi e \<le> x" "x < 2 powi (e + 1)" "- 1022 \<le> e"
    "of_int a * 2 powi (e - 52) \<le> x" "x \<le> of_int b * 2 powi (e - 52)"
  shows "of_int a * 2 powi (e - 52) \<le> double x" "double x \<le> of_int b * 2 powi (e - 52)"
proof -
  have pos: "0 < x" using assms(1) by (rule less_le_trans [rotated]) simp
  have u: "(0::rat) < 2 powi (e - 52)" by simp
  have d: "double x = of_int (rne (x / 2 powi (e - 52))) * 2 powi (e - 52)"
    using pos ilog2_unique [OF assms(1,2)] assms(3) by (simp add: double_def max_def Let_def)
  have "of_int a \<le> x / 2 powi (e - 52)" using assms(4) u by (simp add: pos_le_divide_eq)
  then have "a \<le> rne (x / 2 powi (e - 52))" by (rule rne_ge)
  then show "of_int a * 2 powi (e - 52) \<le> double x" using u by (simp add: d)
  have "x / 2 powi (e - 52) \<le> of_int b" using assms(5) u by (simp add: pos_divide_le_eq)
  then have "rne (x / 2 powi (e - 52)) \<le> b" by (rule rne_le)
  then show "double x \<le> of_int b * 2 powi (e - 52)" using u by (simp add: d)
qed

lemma round_le_pow2:
  assumes "x \<le> 2 powi t" "e - 52 \<le> t"
  shows "of_int (rne (x / 2 powi (e - 52))) * 2 powi (e - 52) \<le> (2::rat) powi t"
proof -
  have u: "(0::rat) < 2 powi (e - 52)" by simp
  have n: "(2::rat) powi (t - (e - 52)) = of_int (2 ^ nat (t - (e - 52)))"
    using assms(2) by (simp add: power_int_def)
  have "x / 2 powi (e - 52) \<le> 2 powi t / 2 powi (e - 52)"
    using assms(1) u by (simp add: divide_right_mono)
  also have "\<dots> = 2 powi (t - (e - 52))" by (simp add: power_int_diff)
  finally have "x / 2 powi (e - 52) \<le> of_int (2 ^ nat (t - (e - 52)))" by (simp only: n)
  then have "rne (x / 2 powi (e - 52)) \<le> 2 ^ nat (t - (e - 52))" by (rule rne_le)
  then have "(of_int (rne (x / 2 powi (e - 52))) :: rat) \<le> of_int (2 ^ nat (t - (e - 52)))"
    by (simp only: of_int_le_iff)
  then have "of_int (rne (x / 2 powi (e - 52))) * 2 powi (e - 52) \<le>
      (2::rat) powi (t - (e - 52)) * 2 powi (e - 52)"
    using u by (simp only: n mult_le_cancel_right_pos)
  also have "\<dots> = 2 powi t" by (simp add: power_int_diff)
  finally show ?thesis .
qed

text \<open>Rounding does not cross a power of two.\<close>

lemma double_le_pow2:
  assumes "0 \<le> x" "x \<le> 2 powi m" "- 1022 \<le> m"
  shows "0 \<le> double x" "double x \<le> 2 powi m"
proof -
  show "0 \<le> double x"
    using rne_ge [of 0] by (simp add: double_def Let_def)
  show "double x \<le> 2 powi m"
  proof (cases "x \<le> 0")
    case True
    then show ?thesis by (simp add: double_def)
  next
    case False
    then have pos: "0 < x" by simp
    define e where "e = max (ilog2 x) (- 1022)"
    have d: "double x = of_int (rne (x / 2 powi (e - 52))) * 2 powi (e - 52)"
      using pos by (simp add: double_def e_def Let_def)
    have "(2::rat) powi m < 2 powi (m + 1)" by (intro power_int_strict_increasing) simp_all
    then have "(2::rat) powi ilog2 x < 2 powi (m + 1)"
      using ilog2_bounds(1) [OF pos] assms(2) by simp
    then have "ilog2 x < m + 1" by (rule pow2_lessD)
    then have "e - 52 \<le> m" using assms(3) by (simp add: e_def)
    then show ?thesis unfolding d using assms(2) by (intro round_le_pow2)
  qed
qed


lemma double_exact:
  assumes "2 powi e \<le> x" "x < 2 powi (e + 1)" "- 1022 \<le> e" "x = of_int a * 2 powi (e - 52)"
  shows "double x = x"
  using double_between [OF assms(1,2,3), of a a] assms(4) by simp

lemma double_4_12:
  assumes "4 \<le> x" "x \<le> 12"
  shows "4 \<le> double x \<and> double x \<le> 12"
proof (cases "x < 8")
  case True
  show ?thesis
    using double_between [of 2 x "2 ^ 52" "2 ^ 53"] assms True by simp
next
  case False
  show ?thesis
    using double_between [of 3 x "2 ^ 52" "3 * 2 ^ 51"] assms False by simp
qed

lemma ctr_bounds:
  assumes "0 \<le> d" "d < 1"
  shows "4 \<le> ctr_value d \<and> ctr_value d \<le> 12"
proof -
  have "0 \<le> double (d * 8) \<and> double (d * 8) \<le> 8"
    using double_le_pow2 [of "d * 8" 3] assms by simp
  then show ?thesis unfolding ctr_value_def by (intro double_4_12) simp_all
qed

lemma double_le_20:
  assumes "0 \<le> x" "x \<le> 20"
  shows "0 \<le> double x \<and> double x \<le> 20"
proof (cases "x < 16")
  case True
  show ?thesis
    using double_le_pow2 [of x 4] assms True by simp
next
  case False
  show ?thesis
    using double_between [of 4 x "2 ^ 52" "5 * 2 ^ 50"] assms False by simp
qed

lemma double_70_90:
  assumes "70 \<le> x" "x \<le> 90"
  shows "70 \<le> double x \<and> double x \<le> 90"
  using double_between [of 6 x "35 * 2 ^ 47" "45 * 2 ^ 47"] assms by simp

lemma retention_bounds:
  assumes "0 \<le> d" "d < 1"
  shows "70 \<le> retention_value d \<and> retention_value d \<le> 90"
proof -
  have "0 \<le> double (d * 20) \<and> double (d * 20) \<le> 20"
    using assms by (intro double_le_20) simp_all
  then show ?thesis unfolding retention_value_def by (intro double_70_90) simp_all
qed

lemma double_small_int:
  "double 4 = 4" "double 8 = 8" "double 5 = 5" "double 75 = 75" "double 50 = 50"
proof -
  show "double 4 = 4" by (rule double_exact [of 2 _ "2 ^ 52"]) simp_all
  show "double 8 = 8" by (rule double_exact [of 3 _ "2 ^ 52"]) simp_all
  show "double 5 = 5" by (rule double_exact [of 2 _ "5 * 2 ^ 50"]) simp_all
  show "double 75 = 75" by (rule double_exact [of 6 _ "75 * 2 ^ 46"]) simp_all
  show "double 50 = 50" by (rule double_exact [of 5 _ "25 * 2 ^ 48"]) simp_all
qed

subsection \<open>Operations as record updates\<close>

lemma clear_if_set_canon:
  "clear_if_set ref t =
     t\<lparr>intervals := filter (\<lambda>i. iv_handle i = 0 \<or> ref \<noteq> Some (iv_handle i)) (intervals t)\<rparr>"
proof (cases ref)
  case None
  then show ?thesis by (simp add: clear_if_set_def)
next
  case (Some h)
  show ?thesis
  proof (cases "h = 0")
    case True
    have "filter (\<lambda>i. iv_handle i = 0 \<or> ref \<noteq> Some (iv_handle i)) (intervals t) = intervals t"
      by (rule filter_True) (use Some True in auto)
    then show ?thesis using Some True by (simp add: clear_if_set_def)
  next
    case False
    have "filter (\<lambda>i. iv_handle i \<noteq> h) (intervals t) =
          filter (\<lambda>i. iv_handle i = 0 \<or> ref \<noteq> Some (iv_handle i)) (intervals t)"
      using Some False by (auto intro: filter_cong)
    then show ?thesis using Some False by (simp add: clear_if_set_def clearInterval_def)
  qed
qed

lemma performUpload_canon:
  "performUpload c r t =
     t\<lparr>isProcessing := (starts c \<or> isProcessing t),
       uploads := (if starts c then initialRecord (rnd_id r) (now t) (c_format c) # uploads t else uploads t),
       runs := (if starts c then runs t @ [Fetching (rnd_id r)] else runs t)\<rparr>"
  by (simp add: performUpload_def Let_def starts_def)

lemmas effect_defs = Let_def upload_effect_def upload_cleanup_def countdown_effect_def
  countdown_cleanup_def clear_if_set_canon setInterval_def performUpload_canon

lemmas commit_defs = commit_def cleanups_def bodies_def upload_stale_def countdown_stale_def
  upload_effect_deps_def countdown_effect_deps_def effect_defs

subsection \<open>What a commit and the settling change\<close>

lemma commit_same:
  "isAutoActive (commit r s) = isAutoActive s" "isConnected (commit r s) = isConnected s"
  "niche (commit r s) = niche s" "tone (commit r s) = tone s" "format (commit r s) = format s"
  "isConnecting (commit r s) = isConnecting s" "showLoginModal (commit r s) = showLoginModal s"
  "channel (commit r s) = channel s" "now (commit r s) = now s" "logins (commit r s) = logins s"
  by (simp_all add: commit_defs)

lemma commit_deps:
  "upload_deps (commit r s) = Some (upload_effect_deps s)"
  "countdown_deps (commit r s) = Some (countdown_effect_deps s)"
  by (simp_all add: commit_defs)

lemma commit_isProcessing: "isProcessing (commit r s) = (fires s \<or> isProcessing s)"
  by (auto simp add: commit_defs fires_def active_def closure_def starts_def)

lemma commit_uploads:
  "uploads (commit r s) =
     (if fires s then initialRecord (rnd_id r) (now s) (format s) # uploads s else uploads s)"
  by (auto simp add: commit_defs fires_def active_def closure_def starts_def)

lemma commit_runs:
  "runs (commit r s) = (if fires s then runs s @ [Fetching (rnd_id r)] else runs s)"
  by (auto simp add: commit_defs fires_def active_def closure_def starts_def)

lemma commit_timeLeft:
  "timeLeft (commit r s) =
     (if (upload_stale s \<and> active s) \<or> (countdown_stale s \<and> \<not> active s) then 60 else timeLeft s)"
  by (auto simp add: commit_defs active_def)

lemma stale_commit: "stale (commit r s) \<longleftrightarrow> fires s"
  by (auto simp add: stale_def upload_stale_def countdown_stale_def commit_deps
      upload_effect_deps_def countdown_effect_deps_def closure_def commit_same
      commit_isProcessing fires_def active_def)

lemma fires_stale: "fires s \<Longrightarrow> stale s"
  by (simp add: fires_def stale_def)

lemma not_fires_commit: "\<not> fires (commit r s)"
proof
  assume f: "fires (commit r s)"
  then have "fires s" using fires_stale stale_commit by blast
  then have "isProcessing (commit r s)" by (simp add: commit_isProcessing)
  with f show False by (simp add: fires_def)
qed

text \<open>The settling is at most two commits: the second only after the first started a run.\<close>

lemma settle_unfold:
  "settle r s = (if stale s then (if fires s then commit r (commit r s) else commit r s) else s)"
proof (cases "stale s")
  case False
  then show ?thesis by (simp add: settle.simps)
next
  case True
  show ?thesis
  proof (cases "fires s")
    case f: True
    have "settle r (commit r (commit r s)) = commit r (commit r s)"
      by (subst settle.simps) (simp add: stale_commit not_fires_commit)
    moreover have "settle r (commit r s) = settle r (commit r (commit r s))"
      by (subst settle.simps) (simp add: stale_commit f)
    ultimately show ?thesis using True f by (subst settle.simps) simp
  next
    case f: False
    have "settle r (commit r s) = commit r s"
      by (subst settle.simps) (simp add: stale_commit f)
    then show ?thesis using True f by (subst settle.simps) simp
  qed
qed

lemma settle_not_stale: "\<not> stale (settle r s)"
  by (simp add: settle_unfold stale_commit not_fires_commit)

lemma settle_same:
  "isAutoActive (settle r s) = isAutoActive s" "isConnected (settle r s) = isConnected s"
  "niche (settle r s) = niche s" "tone (settle r s) = tone s" "format (settle r s) = format s"
  "isConnecting (settle r s) = isConnecting s" "showLoginModal (settle r s) = showLoginModal s"
  "channel (settle r s) = channel s" "now (settle r s) = now s" "logins (settle r s) = logins s"
  by (simp_all add: settle_unfold commit_same)

lemma settle_isProcessing: "isProcessing (settle r s) = (fires s \<or> isProcessing s)"
  using fires_stale [of s] by (auto simp add: settle_unfold commit_isProcessing not_fires_commit)

lemma settle_uploads:
  "uploads (settle r s) =
     (if fires s then initialRecord (rnd_id r) (now s) (format s) # uploads s else uploads s)"
  using fires_stale [of s] by (auto simp add: settle_unfold commit_uploads not_fires_commit)

lemma settle_runs:
  "runs (settle r s) = (if fires s then runs s @ [Fetching (rnd_id r)] else runs s)"
  using fires_stale [of s] by (auto simp add: settle_unfold commit_runs not_fires_commit)

subsection \<open>The timer table\<close>

lemma clear_upload_ref:
  assumes "handles_ok s" "set xs \<subseteq> set (intervals s)"
  shows "filter (\<lambda>i. iv_handle i = 0 \<or> uploadTimerRef s \<noteq> Some (iv_handle i)) xs =
         filter (\<lambda>i. \<not> is_upload i) xs"
proof (rule filter_cong [OF refl])
  fix i assume "i \<in> set xs"
  then have i: "i \<in> set (intervals s)" using assms(2) by blast
  show "(iv_handle i = 0 \<or> uploadTimerRef s \<noteq> Some (iv_handle i)) = (\<not> is_upload i)"
    using assms(1) i unfolding handles_ok_def by (cases "is_upload i") fastforce+
qed

lemma clear_countdown_ref:
  assumes "handles_ok s" "set xs \<subseteq> set (intervals s)"
  shows "filter (\<lambda>i. iv_handle i = 0 \<or> timerRef s \<noteq> Some (iv_handle i)) xs = filter is_upload xs"
proof (rule filter_cong [OF refl])
  fix i assume "i \<in> set xs"
  then have i: "i \<in> set (intervals s)" using assms(2) by blast
  show "(iv_handle i = 0 \<or> timerRef s \<noteq> Some (iv_handle i)) = is_upload i"
    using assms(1) i unfolding handles_ok_def by (cases "is_upload i") fastforce+
qed

lemma no_uploads_without_deps:
  assumes "deps_ok s" "upload_deps s = None" "set xs \<subseteq> set (intervals s)"
  shows "filter (\<lambda>i. \<not> is_upload i) xs = xs"
proof (rule filter_True, rule ballI)
  fix i assume "i \<in> set xs"
  then have "i \<in> set (intervals s)" using assms(3) by blast
  then show "\<not> is_upload i"
    using assms(1,2) unfolding deps_ok_def is_upload_def by (cases "iv_callback i") fastforce+
qed

lemma no_countdowns_without_deps:
  assumes "deps_ok s" "countdown_deps s = None" "set xs \<subseteq> set (intervals s)"
  shows "filter is_upload xs = xs"
proof (rule filter_True, rule ballI)
  fix i assume "i \<in> set xs"
  then have "i \<in> set (intervals s)" using assms(3) by blast
  then show "is_upload i"
    using assms(1,2) unfolding deps_ok_def is_upload_def by (cases "iv_callback i") fastforce+
qed

lemma cleanups_canon:
  assumes "handles_ok s" "deps_ok s"
  shows "cleanups s = s\<lparr>intervals := filter (keep s) (intervals s)\<rparr>"
proof -
  let ?s1 = "if upload_stale s \<and> upload_deps s \<noteq> None then upload_cleanup s else s"
  let ?xs = "filter (\<lambda>i. is_upload i \<longrightarrow> \<not> upload_stale s) (intervals s)"
  have 1: "?s1 = s\<lparr>intervals := ?xs\<rparr>"
  proof (cases "upload_stale s")
    case False
    then show ?thesis by simp
  next
    case True
    show ?thesis
    proof (cases "upload_deps s")
      case None
      then show ?thesis
        using True no_uploads_without_deps [OF assms(2) None subset_refl] by simp
    next
      case (Some d)
      then show ?thesis
        using True clear_upload_ref [OF assms(1) subset_refl]
        by (simp add: upload_cleanup_def clear_if_set_canon)
    qed
  qed
  have sub: "set ?xs \<subseteq> set (intervals s)" by simp
  have 2: "(if countdown_stale s \<and> countdown_deps s \<noteq> None then countdown_cleanup (s\<lparr>intervals := ?xs\<rparr>)
            else s\<lparr>intervals := ?xs\<rparr>) =
           s\<lparr>intervals := filter (\<lambda>i. \<not> is_upload i \<longrightarrow> \<not> countdown_stale s) ?xs\<rparr>"
  proof (cases "countdown_stale s")
    case False
    then show ?thesis by simp
  next
    case True
    show ?thesis
    proof (cases "countdown_deps s")
      case None
      then show ?thesis
        using True no_countdowns_without_deps [OF assms(2) None sub] by simp
    next
      case (Some d)
      then show ?thesis
        using True clear_countdown_ref [OF assms(1) sub]
        by (simp add: countdown_cleanup_def clear_if_set_canon)
    qed
  qed
  have 3: "filter (\<lambda>i. \<not> is_upload i \<longrightarrow> \<not> countdown_stale s) ?xs = filter (keep s) (intervals s)"
    by (auto simp: keep_def intro: filter_cong)
  show ?thesis
    unfolding cleanups_def Let_def 1 2 3 ..
qed

lemma commit_timers:
  assumes "handles_ok s" "deps_ok s"
  shows "intervals (commit r s) =
     filter (keep s) (intervals s) @
     (if upload_stale s \<and> active s then [upload_iv s] else []) @
     (if countdown_stale s \<and> active s then [countdown_iv s] else [])"
   and "uploadTimerRef (commit r s) = (if upload_stale s \<and> active s then Some (next_handle s) else uploadTimerRef s)"
   and "timerRef (commit r s) = (if countdown_stale s \<and> active s then Some (next_handle s + (if upload_stale s then 1 else 0)) else timerRef s)"
   and "next_handle (commit r s) = next_handle s + (if upload_stale s \<and> active s then 1 else 0) + (if countdown_stale s \<and> active s then 1 else 0)"
proof -
  have sub: "set (filter (keep s) (intervals s)) \<subseteq> set (intervals s)" by simp
  have u: "upload_stale s \<Longrightarrow> filter (\<lambda>i. \<not> is_upload i) (filter (keep s) (intervals s)) = filter (keep s) (intervals s)"
    by (rule filter_True) (auto simp: keep_def split: if_splits)
  have c: "countdown_stale s \<Longrightarrow> filter is_upload (filter (keep s) (intervals s)) = filter (keep s) (intervals s)"
    by (rule filter_True) (auto simp: keep_def split: if_splits)
  note cu = clear_upload_ref [OF assms(1) sub] clear_countdown_ref [OF assms(1) sub]
  show "intervals (commit r s) =
     filter (keep s) (intervals s) @
     (if upload_stale s \<and> active s then [upload_iv s] else []) @
     (if countdown_stale s \<and> active s then [countdown_iv s] else [])"
    using cu u c
    by (cases "upload_stale s"; cases "countdown_stale s"; cases "active s")
       (simp_all add: commit_def cleanups_canon [OF assms] bodies_def effect_defs active_def [symmetric] upload_iv_def countdown_iv_def del: filter_filter)
  show "uploadTimerRef (commit r s) = (if upload_stale s \<and> active s then Some (next_handle s) else uploadTimerRef s)"
    by (cases "upload_stale s"; cases "countdown_stale s"; cases "active s")
       (simp_all add: commit_def cleanups_canon [OF assms] bodies_def effect_defs active_def [symmetric])
  show "timerRef (commit r s) = (if countdown_stale s \<and> active s then Some (next_handle s + (if upload_stale s then 1 else 0)) else timerRef s)"
    by (cases "upload_stale s"; cases "countdown_stale s"; cases "active s")
       (simp_all add: commit_def cleanups_canon [OF assms] bodies_def effect_defs active_def [symmetric])
  show "next_handle (commit r s) = next_handle s + (if upload_stale s \<and> active s then 1 else 0) + (if countdown_stale s \<and> active s then 1 else 0)"
    by (cases "upload_stale s"; cases "countdown_stale s"; cases "active s")
       (simp_all add: commit_def cleanups_canon [OF assms] bodies_def effect_defs active_def [symmetric])
qed

lemma handles_ok_commit:
  assumes "handles_ok s" "deps_ok s"
  shows "handles_ok (commit r s)"
  using assms(1)
  unfolding handles_ok_def commit_timers [OF assms]
  by (auto simp: keep_def upload_iv_def countdown_iv_def is_upload_def distinct_map_filter
      split: if_splits)

lemma deps_ok_commit:
  assumes "handles_ok s" "deps_ok s"
  shows "deps_ok (commit r s)"
proof -
  note t = commit_timers(1) [OF assms]
  have old: "\<And>i. i \<in> set (intervals s) \<Longrightarrow>
      (case iv_callback i of
         UploadTick c \<Rightarrow> upload_deps s = Some (True, True, c) \<and> iv_period i = 60000
       | CountdownTick \<Rightarrow> countdown_deps s = Some (True, True) \<and> iv_period i = 1000)"
    using assms(2) unfolding deps_ok_def by blast
  have ex_up: "\<And>c. upload_deps s = Some (True, True, c) \<Longrightarrow>
      \<exists>i \<in> set (intervals s). iv_callback i = UploadTick c"
    using assms(2) unfolding deps_ok_def by blast
  have ex_cd: "countdown_deps s = Some (True, True) \<Longrightarrow>
      \<exists>i \<in> set (intervals s). iv_callback i = CountdownTick"
    using assms(2) unfolding deps_ok_def by blast
  have 1: "(case iv_callback i of
         UploadTick c \<Rightarrow> upload_deps (commit r s) = Some (True, True, c) \<and> iv_period i = 60000
       | CountdownTick \<Rightarrow> countdown_deps (commit r s) = Some (True, True) \<and> iv_period i = 1000)"
    if i: "i \<in> set (intervals (commit r s))" for i
  proof -
    consider (kept) "i \<in> set (intervals s)" "keep s i"
      | (up) "upload_stale s" "active s" "i = upload_iv s"
      | (cd) "countdown_stale s" "active s" "i = countdown_iv s"
      using i unfolding t by (auto split: if_splits)
    then show ?thesis
    proof cases
      case kept
      show ?thesis
      proof (cases "iv_callback i")
        case (UploadTick c)
        then have "\<not> upload_stale s" using kept(2) by (simp add: keep_def is_upload_def)
        then show ?thesis using old [OF kept(1)] UploadTick
          by (simp add: commit_deps upload_stale_def)
      next
        case CountdownTick
        then have "\<not> countdown_stale s" using kept(2) by (simp add: keep_def is_upload_def)
        then show ?thesis using old [OF kept(1)] CountdownTick
          by (simp add: commit_deps countdown_stale_def)
      qed
    next
      case up
      then show ?thesis
        by (simp add: upload_iv_def commit_deps upload_effect_deps_def active_def)
    next
      case cd
      then show ?thesis
        by (simp add: countdown_iv_def commit_deps countdown_effect_deps_def active_def)
    qed
  qed
  have 2: "\<exists>i \<in> set (intervals (commit r s)). iv_callback i = UploadTick c"
    if d: "upload_deps (commit r s) = Some (True, True, c)" for c
  proof -
    from d have a: "active s" and c: "c = closure s"
      by (simp_all add: commit_deps upload_effect_deps_def active_def)
    show ?thesis
    proof (cases "upload_stale s")
      case True
      then show ?thesis using a c unfolding t by (simp add: upload_iv_def)
    next
      case False
      then have "upload_deps s = Some (True, True, c)"
        using d by (simp add: commit_deps upload_stale_def)
      then obtain i where "i \<in> set (intervals s)" "iv_callback i = UploadTick c"
        using ex_up by blast
      then show ?thesis using False unfolding t by (auto simp: keep_def is_upload_def)
    qed
  qed
  have 3: "\<exists>i \<in> set (intervals (commit r s)). iv_callback i = CountdownTick"
    if d: "countdown_deps (commit r s) = Some (True, True)"
  proof -
    from d have a: "active s"
      by (simp_all add: commit_deps countdown_effect_deps_def active_def)
    show ?thesis
    proof (cases "countdown_stale s")
      case True
      then show ?thesis using a unfolding t by (simp add: countdown_iv_def)
    next
      case False
      then have "countdown_deps s = Some (True, True)"
        using d by (simp add: commit_deps countdown_stale_def)
      then obtain i where "i \<in> set (intervals s)" "iv_callback i = CountdownTick"
        using ex_cd by blast
      then show ?thesis using False unfolding t by (auto simp: keep_def is_upload_def)
    qed
  qed
  show ?thesis unfolding deps_ok_def using 1 2 3 by blast
qed

subsection \<open>Handlers\<close>

lemma performUpload_loop_canon:
  "performUpload_loop k newId g rest r s =
     s\<lparr>uploads := (case rest of [] \<Rightarrow> map_uploaded newId (rnd_metrics r) 0 (uploads s)
                  | st # rest' \<Rightarrow> map (mark_stage newId g st) (uploads s)),
       isProcessing := (rest \<noteq> [] \<and> isProcessing s),
       runs := (case rest of [] \<Rightarrow> remove_at k (runs s)
                | st # rest' \<Rightarrow> (runs s)[k := Sleeping newId g rest' (now s + 2000)])\<rparr>"
  by (cases rest) simp_all

text \<open>Calls of one closure: all of them pass its guard, or none does.\<close>

lemma onManualTrigger_canon:
  "onManualTrigger c r newIds s =
     s\<lparr>isProcessing := (starts c \<and> newIds \<noteq> [] \<or> isProcessing s),
       uploads := (if starts c then map (\<lambda>i. initialRecord i (now s) (c_format c)) (rev newIds) else []) @ uploads s,
       runs := runs s @ (if starts c then map Fetching newIds else [])\<rparr>"
proof (induction newIds arbitrary: s)
  case Nil
  show ?case by (simp add: onManualTrigger_def)
next
  case (Cons i newIds)
  let ?t = "performUpload c (r\<lparr>rnd_id := i\<rparr>) s"
  have "onManualTrigger c r (i # newIds) s = onManualTrigger c r newIds ?t"
    by (simp add: onManualTrigger_def)
  also have "\<dots> =
     ?t\<lparr>isProcessing := (starts c \<and> newIds \<noteq> [] \<or> isProcessing ?t),
       uploads := (if starts c then map (\<lambda>i. initialRecord i (now ?t) (c_format c)) (rev newIds) else []) @ uploads ?t,
       runs := runs ?t @ (if starts c then map Fetching newIds else [])\<rparr>"
    by (rule Cons)
  also have "\<dots> =
     s\<lparr>isProcessing := (starts c \<and> i # newIds \<noteq> [] \<or> isProcessing s),
       uploads := (if starts c then map (\<lambda>i. initialRecord i (now s) (c_format c)) (rev (i # newIds)) else []) @ uploads s,
       runs := runs s @ (if starts c then map Fetching (i # newIds) else [])\<rparr>"
    by (cases "starts c") (simp_all add: performUpload_canon)
  finally show ?case .
qed

lemmas handler_defs = elapse_def handleOpenLogin_def handleCloseLogin_def handleConnect_def
  handleConnect_resume_def setupMockChannel_def handleGoogleLogin_def handleGoogleLogin_selected_def
  handleGoogleLogin_rejected_def handleDisconnect_def performUpload_canon performUpload_fetched_def
  performUpload_failed_def performUpload_resume_def performUpload_loop_canon fire_interval_def
  upload_tick_def countdown_tick_def onManualTrigger_canon Let_def

lemma dispatch_timer_fields:
  "uploadTimerRef (dispatch r e s) = uploadTimerRef s"
  "timerRef (dispatch r e s) = timerRef s"
  "next_handle (dispatch r e s) = next_handle s"
  "upload_deps (dispatch r e s) = upload_deps s"
  "countdown_deps (dispatch r e s) = countdown_deps s"
  by (cases e; simp add: handler_defs split: Login.splits Run.splits option.splits Callback.splits)+

lemma dispatch_intervals:
  "intervals (dispatch r e s) = intervals s \<or>
   (\<exists>h. e = IntervalFire h \<and> intervals (dispatch r e s) = map (reschedule h) (intervals s))"
  by (cases e; simp add: handler_defs split: Login.splits Run.splits option.splits Callback.splits)

lemma reschedule_fields [simp]:
  "iv_handle (reschedule h i) = iv_handle i" "iv_period (reschedule h i) = iv_period i"
  "iv_callback (reschedule h i) = iv_callback i"
  by (simp_all add: reschedule_def)

lemma handles_ok_dispatch: "handles_ok s \<Longrightarrow> handles_ok (dispatch r e s)"
  using dispatch_intervals [of r e s]
  by (auto simp: handles_ok_def dispatch_timer_fields is_upload_def comp_def)

lemma deps_ok_dispatch: "deps_ok s \<Longrightarrow> deps_ok (dispatch r e s)"
  using dispatch_intervals [of r e s]
  by (auto simp: deps_ok_def dispatch_timer_fields split: Callback.splits)

lemma timers_ok_settle:
  assumes "handles_ok s" "deps_ok s"
  shows "handles_ok (settle r s)" "deps_ok (settle r s)"
  using assms
  by (simp_all add: settle_unfold handles_ok_commit deps_ok_commit)

lemma timers_ok_step:
  assumes "handles_ok s" "deps_ok s"
  shows "handles_ok (step i s)" "deps_ok (step i s)"
  using assms
  by (simp_all add: step_def timers_ok_settle handles_ok_dispatch deps_ok_dispatch)

lemma timers_ok_initial: "handles_ok initial" "deps_ok initial"
  by (simp_all add: handles_ok_def deps_ok_def initial_def)

lemma timers_ok_mounted: "handles_ok mounted" "deps_ok mounted"
  by (simp_all add: mounted_def timers_ok_settle timers_ok_initial)

subsection \<open>The callback of the upload interval\<close>

lemma upload_tick_closure:
  assumes "deps_ok s" "\<not> stale s" "find (\<lambda>i. iv_handle i = h) (intervals s) = Some i"
    "iv_callback i = UploadTick c"
  shows "c = closure s"
proof -
  have "i \<in> set (intervals s)" using assms(3) by (auto simp: find_Some_iff)
  then have "upload_deps s = Some (True, True, c)"
    using assms(1,4) unfolding deps_ok_def by fastforce
  then show ?thesis using assms(2)
    by (simp add: stale_def upload_stale_def upload_effect_deps_def)
qed

lemma suffix_stages_last: "suffix [st] stages \<Longrightarrow> st = publishing"
  by (auto simp: suffix_def stages_def Cons_eq_append_conv append_eq_Cons_conv)

subsection \<open>The countdown and the guard\<close>

lemma clock_ok_commit: "clock_ok s \<Longrightarrow> clock_ok (commit r s)"
  by (auto simp: clock_ok_def commit_timeLeft commit_deps countdown_effect_deps_def active_def
      countdown_stale_def)

lemma clock_ok_settle: "clock_ok s \<Longrightarrow> clock_ok (settle r s)"
  by (simp add: settle_unfold clock_ok_commit)

lemma dispatch_timeLeft:
  "timeLeft (dispatch r e s) = timeLeft s \<or> timeLeft (dispatch r e s) = 60 \<or>
   (\<exists>i \<in> set (intervals s). iv_callback i = CountdownTick \<and>
      timeLeft (dispatch r e s) = (if timeLeft s > 1 then timeLeft s - 1 else 60))"
proof (cases e)
  case (IntervalFire h)
  show ?thesis
  proof (cases "find (\<lambda>i. iv_handle i = h) (intervals s)")
    case None
    then show ?thesis by (simp add: IntervalFire fire_interval_def)
  next
    case (Some i)
    then have "i \<in> set (intervals s)" by (auto simp: find_Some_iff)
    then show ?thesis using Some
      by (cases "iv_callback i") (auto simp: IntervalFire handler_defs)
  qed
qed (simp_all add: handler_defs split: Login.splits Run.splits)

lemma clock_ok_dispatch:
  assumes "clock_ok s" "deps_ok s"
  shows "clock_ok (dispatch r e s)"
proof -
  consider "timeLeft (dispatch r e s) = timeLeft s" | "timeLeft (dispatch r e s) = 60"
    | i where "i \<in> set (intervals s)" "iv_callback i = CountdownTick"
      "timeLeft (dispatch r e s) = (if timeLeft s > 1 then timeLeft s - 1 else 60)"
    using dispatch_timeLeft [of r e s] by blast
  then show ?thesis
  proof cases
    case 1
    then show ?thesis using assms(1) by (simp add: clock_ok_def dispatch_timer_fields)
  next
    case 2
    then show ?thesis by (simp add: clock_ok_def)
  next
    case 3
    then have "countdown_deps s = Some (True, True)"
      using assms(2) unfolding deps_ok_def by fastforce
    then show ?thesis using assms(1) 3(3) by (auto simp: clock_ok_def dispatch_timer_fields)
  qed
qed

lemma busy_step:
  assumes "\<not> stale s" "active s \<longrightarrow> isProcessing s" "active (step i s)"
  shows "isProcessing (step i s)"
proof (rule ccontr)
  let ?s1 = "dispatch (fst i) (snd i) s"
  assume n: "\<not> isProcessing (step i s)"
  then have nf: "\<not> fires ?s1" and np: "\<not> isProcessing ?s1"
    by (simp_all add: step_def settle_isProcessing)
  have a: "active ?s1" using assms(3) by (simp add: step_def active_def settle_same)
  then have "\<not> upload_stale ?s1" using nf np by (simp add: fires_def)
  then have "upload_effect_deps ?s1 = upload_effect_deps s"
    using assms(1) by (simp add: upload_stale_def stale_def dispatch_timer_fields)
  then have "active s = active ?s1" "isProcessing s = isProcessing ?s1"
    by (auto simp: upload_effect_deps_def active_def closure_def)
  then show False using a np assms(2) by simp
qed

lemma set_map_filter_conv: "set (List.map_filter f xs) = {y. \<exists>x \<in> set xs. f x = Some y}"
  by (induction xs) (auto split: option.splits)

lemma punctual_iff:
  "punctual s \<longleftrightarrow>
     (\<forall>i \<in> set (intervals s). now s \<le> iv_due i) \<and>
     (\<forall>x \<in> set (runs s). \<forall>d. run_due x = Some d \<longrightarrow> now s \<le> d) \<and>
     (\<forall>x \<in> set (logins s). \<forall>d. login_due x = Some d \<longrightarrow> now s \<le> d)"
  unfolding punctual_def dues_def list_all_iff set_append set_map_filter_conv set_map
  by blast

subsection \<open>No timer is overdue\<close>

lemma set_remove_at: "set (remove_at k xs) \<subseteq> set xs"
  using set_take_subset [of k xs] set_drop_subset [of "Suc k" xs]
  by (simp add: remove_at_def)

lemma in_remove_atD: "x \<in> set (remove_at k xs) \<Longrightarrow> x \<in> set xs"
  using set_remove_at [of k xs] by (rule subsetD)

lemma in_updateD: "x \<in> set (xs[k := y]) \<Longrightarrow> x = y \<or> x \<in> set xs"
  using set_update_subset_insert [of xs k y] by (auto dest: subsetD)

lemma reschedule_due: "iv_due i \<le> iv_due (reschedule h i)"
  by (simp add: reschedule_def)

lemma punctualI:
  assumes "\<And>i. i \<in> set (intervals s) \<Longrightarrow> now s \<le> iv_due i"
    "\<And>x d. x \<in> set (runs s) \<Longrightarrow> run_due x = Some d \<Longrightarrow> now s \<le> d"
    "\<And>x d. x \<in> set (logins s) \<Longrightarrow> login_due x = Some d \<Longrightarrow> now s \<le> d"
  shows "punctual s"
  unfolding punctual_iff using assms by blast

lemma punctualD:
  assumes "punctual s"
  shows "\<And>i. i \<in> set (intervals s) \<Longrightarrow> now s \<le> iv_due i"
    "\<And>x d. x \<in> set (runs s) \<Longrightarrow> run_due x = Some d \<Longrightarrow> now s \<le> d"
    "\<And>x d. x \<in> set (logins s) \<Longrightarrow> login_due x = Some d \<Longrightarrow> now s \<le> d"
  using assms unfolding punctual_iff by blast+

lemma pd_elapse: "punctual s \<Longrightarrow> punctual (elapse d s)"
  by (auto simp: elapse_def punctual_def dues_def)

lemma punctual_performUpload:
  assumes "punctual s" shows "punctual (performUpload c r s)"
proof (rule punctualI)
  note old = punctualD [OF assms]
  show "\<And>i. i \<in> set (intervals (performUpload c r s)) \<Longrightarrow> now (performUpload c r s) \<le> iv_due i"
    using old(1) by (simp add: performUpload_canon)
  show "\<And>x d. x \<in> set (runs (performUpload c r s)) \<Longrightarrow> run_due x = Some d \<Longrightarrow>
      now (performUpload c r s) \<le> d"
    using old(2) by (auto simp add: performUpload_canon split: if_splits)
  show "\<And>x d. x \<in> set (logins (performUpload c r s)) \<Longrightarrow> login_due x = Some d \<Longrightarrow>
      now (performUpload c r s) \<le> d"
    using old(3) by (simp add: performUpload_canon)
qed

lemma punctual_cong:
  assumes "punctual s" "now t = now s" "intervals t = intervals s" "runs t = runs s"
    "logins t = logins s"
  shows "punctual t"
  using assms by (simp add: punctual_iff)

lemma pd_fire:
  assumes "punctual s" shows "punctual (fire_interval h r s)"
proof (cases "find (\<lambda>i. iv_handle i = h) (intervals s)")
  case None
  then show ?thesis using assms by (simp add: fire_interval_def)
next
  case (Some i)
  note old = punctualD [OF assms]
  let ?s1 = "s\<lparr>intervals := map (reschedule h) (intervals s)\<rparr>"
  have 1: "punctual ?s1"
  proof (rule punctualI)
    fix j assume "j \<in> set (intervals ?s1)"
    then obtain j' where "j' \<in> set (intervals s)" "j = reschedule h j'" by auto
    then show "now ?s1 \<le> iv_due j"
      using old(1) [of j'] reschedule_due [of j' h] by simp
  next
    show "\<And>x d. x \<in> set (runs ?s1) \<Longrightarrow> run_due x = Some d \<Longrightarrow> now ?s1 \<le> d"
      using old(2) by simp
    show "\<And>x d. x \<in> set (logins ?s1) \<Longrightarrow> login_due x = Some d \<Longrightarrow> now ?s1 \<le> d"
      using old(3) by simp
  qed
  have 2: "punctual (upload_tick c r ?s1)" for c
    by (rule punctual_cong [OF punctual_performUpload [OF 1, of c r]])
       (simp_all add: upload_tick_def)
  have 3: "punctual (countdown_tick ?s1)"
    by (rule punctual_cong [OF 1]) (simp_all add: countdown_tick_def)
  show ?thesis
    using Some assms 2 3 by (simp add: fire_interval_def Let_def split: Callback.splits)
qed

lemma punctual_commit:
  assumes "handles_ok s" "deps_ok s" "punctual s"
  shows "punctual (commit r s)"
proof -
  have old: "\<And>i. i \<in> set (intervals s) \<Longrightarrow> now s \<le> iv_due i"
    "\<And>x d. x \<in> set (runs s) \<Longrightarrow> run_due x = Some d \<Longrightarrow> now s \<le> d"
    "\<And>x d. x \<in> set (logins s) \<Longrightarrow> login_due x = Some d \<Longrightarrow> now s \<le> d"
    using assms(3) unfolding punctual_iff by blast+
  have i: "now s \<le> iv_due i" if mem: "i \<in> set (intervals (commit r s))" for i
  proof -
    consider "i \<in> set (intervals s)" | "i = upload_iv s" | "i = countdown_iv s"
      using mem unfolding commit_timers(1) [OF assms(1,2)] by (auto split: if_splits)
    then show ?thesis
      using old(1) by cases (auto simp: upload_iv_def countdown_iv_def)
  qed
  have r: "now s \<le> d" if "x \<in> set (runs (commit r s))" "run_due x = Some d" for x d
    using that old(2) by (auto simp: commit_runs split: if_splits)
  show ?thesis
    unfolding punctual_iff commit_same using i r old(3) by blast
qed


lemma punctual_settle:
  assumes "handles_ok s" "deps_ok s" "punctual s"
  shows "punctual (settle r s)"
  using assms
  by (simp add: settle_unfold punctual_commit handles_ok_commit deps_ok_commit)

lemma punctual_append_login:
  assumes "punctual s" "now s \<le> due"
  shows "punctual (s\<lparr>isConnecting := b, logins := logins s @ [Latency email due]\<rparr>)"
  using punctualD [OF assms(1)] assms(2) by (intro punctualI) auto

lemma punctual_logins:
  assumes "punctual s" "\<And>x. x \<in> set ls \<Longrightarrow> x \<in> set (logins s) \<or> (\<forall>d. login_due x = Some d \<longrightarrow> now s \<le> d)"
    "now t = now s" "intervals t = intervals s" "runs t = runs s" "logins t = ls"
  shows "punctual t"
proof (rule punctualI)
  note old = punctualD [OF assms(1)]
  show "\<And>i. i \<in> set (intervals t) \<Longrightarrow> now t \<le> iv_due i" using old(1) assms by simp
  show "\<And>x d. x \<in> set (runs t) \<Longrightarrow> run_due x = Some d \<Longrightarrow> now t \<le> d" using old(2) assms by simp
  show "now t \<le> d" if "x \<in> set (logins t)" "login_due x = Some d" for x d
    using assms(2) [of x] that old(3) [of x d] assms(3,6) by auto
qed

lemma punctual_runs:
  assumes "punctual s" "\<And>x. x \<in> set rs \<Longrightarrow> x \<in> set (runs s) \<or> (\<forall>d. run_due x = Some d \<longrightarrow> now s \<le> d)"
    "now t = now s" "intervals t = intervals s" "runs t = rs" "logins t = logins s"
  shows "punctual t"
proof (rule punctualI)
  note old = punctualD [OF assms(1)]
  show "\<And>i. i \<in> set (intervals t) \<Longrightarrow> now t \<le> iv_due i" using old(1) assms by simp
  show "\<And>x d. x \<in> set (logins t) \<Longrightarrow> login_due x = Some d \<Longrightarrow> now t \<le> d" using old(3) assms by simp
  show "now t \<le> d" if "x \<in> set (runs t)" "run_due x = Some d" for x d
    using assms(2) [of x] that old(2) [of x d] assms(3,5) by auto
qed

lemma punctual_dispatch:
  assumes "punctual s"
  shows "punctual (dispatch r e s)"
proof (cases e)
  case (Elapse d)
  then show ?thesis using assms by (simp add: pd_elapse)
next
  case (IntervalFire h)
  then show ?thesis using assms by (simp add: pd_fire)
next
  case (ManualTrigger again)
  show ?thesis
    unfolding ManualTrigger dispatch.simps
    by (rule punctual_runs [OF assms]) (auto simp: handler_defs)
next
  case (FetchResolved k g)
  show ?thesis
    unfolding FetchResolved dispatch.simps
    by (rule punctual_runs [OF assms])
       (auto simp: handler_defs stages_def split: Run.splits if_splits dest!: in_updateD)
next
  case (StageTimeout k)
  show ?thesis
    unfolding StageTimeout dispatch.simps
    by (rule punctual_runs [OF assms])
       (auto simp: handler_defs split: Run.splits list.splits if_splits dest!: in_updateD in_remove_atD)
next
  case (FetchRejected k)
  show ?thesis
    unfolding FetchRejected dispatch.simps
    by (rule punctual_runs [OF assms])
       (auto simp: handler_defs split: Run.splits if_splits dest!: in_remove_atD)
next
  case (KeySelected k)
  show ?thesis
    unfolding KeySelected dispatch.simps
    by (rule punctual_logins [OF assms])
       (auto simp: handler_defs split: Login.splits if_splits dest!: in_updateD)
next
  case (KeyRejected k)
  show ?thesis
    unfolding KeyRejected dispatch.simps
    by (rule punctual_logins [OF assms])
       (auto simp: handler_defs split: Login.splits if_splits dest!: in_remove_atD)
next
  case (LoginTimeout k)
  show ?thesis
    unfolding LoginTimeout dispatch.simps
    by (rule punctual_logins [OF assms])
       (auto simp: handler_defs split: Login.splits if_splits dest!: in_remove_atD)
next
  case (Login email)
  show ?thesis
    unfolding Login dispatch.simps
    by (rule punctual_logins [OF assms]) (auto simp: handler_defs split: if_splits)
next
  case (GoogleLogin a)
  show ?thesis
    unfolding GoogleLogin dispatch.simps
    by (rule punctual_logins [OF assms]) (auto simp: handler_defs split: if_splits)
qed (auto intro: punctual_cong [OF assms] simp: handler_defs)

subsection \<open>The invariant\<close>

lemma invariant_step:
  assumes "invariant s"
  shows "invariant (step i s)"
proof -
  from assms have h: "handles_ok s" and d: "deps_ok s" and st: "\<not> stale s"
    and c: "clock_ok s" and p: "punctual s" and b: "active s \<longrightarrow> isProcessing s"
    by (simp_all add: invariant_def)
  let ?s1 = "dispatch (fst i) (snd i) s"
  have h1: "handles_ok ?s1" and d1: "deps_ok ?s1"
    using h d by (simp_all add: handles_ok_dispatch deps_ok_dispatch)
  have "clock_ok (step i s)"
    using clock_ok_dispatch [OF c d] by (simp add: step_def clock_ok_settle)
  moreover have "punctual (step i s)"
    using punctual_dispatch [OF p] h1 d1 by (simp add: step_def punctual_settle)
  moreover have "active (step i s) \<longrightarrow> isProcessing (step i s)"
    using busy_step [OF st b] by blast
  ultimately show ?thesis
    using timers_ok_step [OF h d] by (simp add: invariant_def step_def settle_not_stale)
qed

lemma invariant_mounted: "invariant mounted"
proof -
  have "clock_ok initial" "punctual initial"
    by (simp_all add: clock_ok_def punctual_def dues_def initial_def)
  then have "clock_ok mounted" "punctual mounted"
    by (simp_all add: mounted_def clock_ok_settle punctual_settle timers_ok_initial)
  moreover have "\<not> active mounted"
    by (simp add: mounted_def active_def settle_same initial_def)
  ultimately show ?thesis
    by (simp add: invariant_def timers_ok_mounted) (simp add: mounted_def settle_not_stale)
qed

lemma invariant_exec: "invariant s \<Longrightarrow> invariant (exec ins s)"
  by (induction ins arbitrary: s) (simp_all add: invariant_step)

lemma invariant_reachable: "invariant (exec ins mounted)"
  by (simp add: invariant_exec invariant_mounted)

subsection \<open>Settled states\<close>

lemmas eval_defs = step_def settle_unfold stale_def fires_def active_def commit_defs handler_defs
  closure_def mounted_def initial_def no_rand_def dues_def remove_at_def starts_def
  initialRecord_def mark_stage_def mark_failed_def stages_def rnd_def growth_def connecting_def

lemma settled_deps:
  assumes "invariant s"
  shows "upload_deps s = Some (isAutoActive s, isConnected s, closure s)"
    "countdown_deps s = Some (isAutoActive s, isConnected s)"
  using assms
  by (simp_all add: invariant_def stale_def upload_stale_def countdown_stale_def
      upload_effect_deps_def countdown_effect_deps_def)

lemma inactive_no_intervals:
  assumes "invariant s" "\<not> active s"
  shows "intervals s = []"
proof (rule ccontr)
  assume "intervals s \<noteq> []"
  then obtain i where i: "i \<in> set (intervals s)" by (cases "intervals s") auto
  have d: "deps_ok s" using assms(1) by (simp add: invariant_def)
  show False
  proof (cases "iv_callback i")
    case (UploadTick c)
    then have "upload_deps s = Some (True, True, c)" using d i unfolding deps_ok_def by fastforce
    then show False using settled_deps(1) [OF assms(1)] assms(2) by (simp add: active_def)
  next
    case CountdownTick
    then have "countdown_deps s = Some (True, True)" using d i unfolding deps_ok_def by fastforce
    then show False using settled_deps(2) [OF assms(1)] assms(2) by (simp add: active_def)
  qed
qed

lemma active_intervals:
  assumes "invariant s" "active s"
  shows "\<exists>i \<in> set (intervals s). iv_callback i = CountdownTick \<and> iv_period i = 1000"
    "\<exists>i \<in> set (intervals s). iv_callback i = UploadTick (closure s) \<and> iv_period i = 60000"
proof -
  have d: "deps_ok s" using assms(1) by (simp add: invariant_def)
  have "countdown_deps s = Some (True, True)"
    using settled_deps(2) [OF assms(1)] assms(2) by (simp add: active_def)
  then obtain i where i: "i \<in> set (intervals s)" "iv_callback i = CountdownTick"
    using d unfolding deps_ok_def by blast
  then have "iv_period i = 1000" using d unfolding deps_ok_def by fastforce
  then show "\<exists>i \<in> set (intervals s). iv_callback i = CountdownTick \<and> iv_period i = 1000"
    using i by blast
  have "upload_deps s = Some (True, True, closure s)"
    using settled_deps(1) [OF assms(1)] assms(2) by (simp add: active_def)
  then obtain j where j: "j \<in> set (intervals s)" "iv_callback j = UploadTick (closure s)"
    using d unfolding deps_ok_def by blast
  then have "iv_period j = 60000" using d unfolding deps_ok_def by fastforce
  then show "\<exists>i \<in> set (intervals s). iv_callback i = UploadTick (closure s) \<and> iv_period i = 60000"
    using j by blast
qed

lemma find_handle:
  assumes "handles_ok s" "i \<in> set (intervals s)"
  shows "find (\<lambda>j. iv_handle j = iv_handle i) (intervals s) = Some i"
proof -
  have d: "distinct (map iv_handle (intervals s))" using assms(1) by (simp add: handles_ok_def)
  obtain k where k: "k < length (intervals s)" "intervals s ! k = i"
    using assms(2) by (auto simp: in_set_conv_nth)
  have "iv_handle (intervals s ! j) \<noteq> iv_handle i" if "j < k" for j
  proof
    assume e: "iv_handle (intervals s ! j) = iv_handle i"
    have jl: "j < length (map iv_handle (intervals s))" and kl: "k < length (map iv_handle (intervals s))"
      using k that by simp_all
    have "map iv_handle (intervals s) ! j = map iv_handle (intervals s) ! k"
      using e k that by simp
    then have "j = k" using nth_eq_iff_index_eq [OF d jl kl] by simp
    then show False using that by simp
  qed
  then show ?thesis using k by (auto simp: find_Some_iff)
qed

lemma not_stale_settle: "\<not> stale s \<Longrightarrow> settle r s = s"
  by (simp add: settle_unfold)

lemma countdown_fire:
  assumes "invariant s" "i \<in> set (intervals s)" "iv_callback i = CountdownTick" "iv_due i \<le> now s"
  shows "step (r, IntervalFire (iv_handle i)) s =
     s\<lparr>intervals := map (reschedule (iv_handle i)) (intervals s),
       timeLeft := (if 1 < timeLeft s then timeLeft s - 1 else 60)\<rparr>"
proof -
  have h: "handles_ok s" and st: "\<not> stale s" using assms(1) by (simp_all add: invariant_def)
  have d: "dispatch r (IntervalFire (iv_handle i)) s =
     s\<lparr>intervals := map (reschedule (iv_handle i)) (intervals s),
       timeLeft := (if 1 < timeLeft s then timeLeft s - 1 else 60)\<rparr>"
    using find_handle [OF h assms(2)] assms(3,4)
    by (simp add: fire_interval_def Let_def countdown_tick_def)
  have "\<not> stale (dispatch r (IntervalFire (iv_handle i)) s)"
    using st unfolding d
    by (simp add: stale_def upload_stale_def countdown_stale_def upload_effect_deps_def
        countdown_effect_deps_def closure_def)
  then show ?thesis by (simp add: step_def not_stale_settle d [symmetric])
qed

subsection \<open>What one event does to the store and to the suspended calls\<close>

lemma length_map_uploaded [simp]: "length (map_uploaded newId draws n us) = length us"
  by (induction us arbitrary: n) simp_all

lemma dispatch_store:
  assumes "deps_ok s" "\<not> stale s"
  obtains (same) "uploads (dispatch r e s) = uploads s" "runs (dispatch r e s) = runs s"
      "isProcessing (dispatch r e s) = isProcessing s"
  | (start) news where "news \<noteq> []" "\<not> isProcessing s" "isConnected s"
      "(\<exists>again. e = ManualTrigger again) \<or> (\<exists>h. e = IntervalFire h)"
      "uploads (dispatch r e s) = map (\<lambda>n. initialRecord n (now s) (format s)) (rev news) @ uploads s"
      "runs (dispatch r e s) = runs s @ map Fetching news" "isProcessing (dispatch r e s)"
  | (fetched) k newId g where "k < length (runs s)" "runs s ! k = Fetching newId"
      "e = FetchResolved k g"
      "uploads (dispatch r e s) = map (mark_stage newId g strategy_mapping) (uploads s)"
      "runs (dispatch r e s) = (runs s)[k := Sleeping newId g (tl stages) (now s + 2000)]"
      "isProcessing (dispatch r e s) = isProcessing s"
  | (failed) k newId where "k < length (runs s)" "runs s ! k = Fetching newId"
      "e = FetchRejected k"
      "uploads (dispatch r e s) = map (mark_failed newId) (uploads s)"
      "runs (dispatch r e s) = remove_at k (runs s)" "\<not> isProcessing (dispatch r e s)"
  | (staged) k newId g st rest due where "k < length (runs s)"
      "runs s ! k = Sleeping newId g (st # rest) due" "due \<le> now s" "e = StageTimeout k"
      "uploads (dispatch r e s) = map (mark_stage newId g st) (uploads s)"
      "runs (dispatch r e s) = (runs s)[k := Sleeping newId g rest (now s + 2000)]"
      "isProcessing (dispatch r e s) = isProcessing s"
  | (published) k newId g due where "k < length (runs s)" "runs s ! k = Sleeping newId g [] due"
      "due \<le> now s" "e = StageTimeout k"
      "uploads (dispatch r e s) = map_uploaded newId (rnd_metrics r) 0 (uploads s)"
      "runs (dispatch r e s) = remove_at k (runs s)" "\<not> isProcessing (dispatch r e s)"
proof (cases e)
  case (ManualTrigger again)
  show ?thesis
  proof (cases "starts (closure s)")
    case True
    then show ?thesis using ManualTrigger
      by (intro start [of "rnd_id r # again"])
         (simp_all add: onManualTrigger_canon starts_def closure_def)
  next
    case False
    then show ?thesis using ManualTrigger by (intro same) (simp_all add: onManualTrigger_canon)
  qed
next
  case (IntervalFire h)
  show ?thesis
  proof (cases "find (\<lambda>i. iv_handle i = h) (intervals s)")
    case None
    then show ?thesis by (intro same) (simp_all add: IntervalFire fire_interval_def)
  next
    case (Some i)
    show ?thesis
    proof (cases "iv_due i \<le> now s")
      case False
      then show ?thesis using Some by (intro same) (simp_all add: IntervalFire fire_interval_def)
    next
      case True
      show ?thesis
      proof (cases "iv_callback i")
        case (UploadTick c)
        then have c: "c = closure s" using upload_tick_closure [OF assms Some] by simp
        have d: "fire_interval h r s =
            (performUpload (closure s) r (s\<lparr>intervals := map (reschedule h) (intervals s)\<rparr>))\<lparr>timeLeft := 60\<rparr>"
          using Some True UploadTick c
          by (simp add: fire_interval_def Let_def upload_tick_def)
        show ?thesis
        proof (cases "starts (closure s)")
          case s: True
          then show ?thesis using IntervalFire
            by (intro start [of "[rnd_id r]"])
               (simp_all add: d performUpload_canon starts_def closure_def)
        next
          case False
          then show ?thesis using IntervalFire by (intro same) (simp_all add: d performUpload_canon)
        qed
      next
        case CountdownTick
        then show ?thesis using Some True
          by (intro same) (simp_all add: IntervalFire fire_interval_def Let_def countdown_tick_def)
      qed
    qed
  qed
next
  case (FetchResolved k g)
  show ?thesis
  proof (cases "k < length (runs s)")
    case False
    then show ?thesis by (intro same) (simp_all add: FetchResolved performUpload_fetched_def)
  next
    case True
    show ?thesis
    proof (cases "runs s ! k")
      case (Fetching newId)
      then show ?thesis using True FetchResolved
        by (intro fetched [of k newId g]) (simp_all add: performUpload_fetched_def stages_def)
    next
      case (Sleeping newId g' rest due)
      then show ?thesis using True
        by (intro same) (simp_all add: FetchResolved performUpload_fetched_def)
    qed
  qed
next
  case (FetchRejected k)
  show ?thesis
  proof (cases "k < length (runs s)")
    case False
    then show ?thesis by (intro same) (simp_all add: FetchRejected performUpload_failed_def)
  next
    case True
    show ?thesis
    proof (cases "runs s ! k")
      case (Fetching newId)
      then show ?thesis using True FetchRejected
        by (intro failed [of k newId]) (simp_all add: performUpload_failed_def)
    next
      case (Sleeping newId g' rest due)
      then show ?thesis using True
        by (intro same) (simp_all add: FetchRejected performUpload_failed_def)
    qed
  qed
next
  case (StageTimeout k)
  show ?thesis
  proof (cases "k < length (runs s)")
    case False
    then show ?thesis by (intro same) (simp_all add: StageTimeout performUpload_resume_def)
  next
    case True
    show ?thesis
    proof (cases "runs s ! k")
      case (Fetching newId)
      then show ?thesis using True
        by (intro same) (simp_all add: StageTimeout performUpload_resume_def)
    next
      case (Sleeping newId g rest due)
      show ?thesis
      proof (cases "due \<le> now s")
        case False
        then show ?thesis using True Sleeping
          by (intro same) (simp_all add: StageTimeout performUpload_resume_def)
      next
        case d: True
        show ?thesis
        proof (cases rest)
          case Nil
          then show ?thesis using True Sleeping d StageTimeout
            by (intro published [of k newId g due]) (simp_all add: performUpload_resume_def)
        next
          case (Cons st rest')
          then show ?thesis using True Sleeping d StageTimeout
            by (intro staged [of k newId g st rest' due]) (simp_all add: performUpload_resume_def)
        qed
      qed
    qed
  qed
qed (intro same; simp add: handler_defs split: Login.splits)+

lemma settle_timeLeft:
  "timeLeft (settle r s) = 60 \<or> timeLeft (settle r s) = timeLeft s"
  by (auto simp add: settle_unfold commit_timeLeft)

lemma fires_timeLeft: "fires s \<Longrightarrow> timeLeft (settle r s) = 60"
  using fires_stale [of s]
  by (auto simp add: settle_unfold commit_timeLeft fires_def commit_same active_def)

lemma settle_store:
  "\<not> active s \<Longrightarrow> uploads (settle r s) = uploads s"
  "\<not> active s \<Longrightarrow> runs (settle r s) = runs s"
  "\<not> active s \<Longrightarrow> isProcessing (settle r s) = isProcessing s"
  by (simp_all add: settle_uploads settle_runs settle_isProcessing fires_def)

lemma trigger_same:
  "now (performUpload c r s) = now s" "format (performUpload c r s) = format s"
  "isConnected (performUpload c r s) = isConnected s"
  "now (onManualTrigger c r newIds s) = now s" "format (onManualTrigger c r newIds s) = format s"
  "isConnected (onManualTrigger c r newIds s) = isConnected s"
  "now (fire_interval h r s) = now s" "format (fire_interval h r s) = format s"
  "isConnected (fire_interval h r s) = isConnected s"
  by (simp_all add: handler_defs split: option.splits Callback.splits)

lemma run_event_same:
  assumes "e = FetchResolved k g \<or> e = FetchRejected k \<or> e = StageTimeout k"
  shows "now (dispatch r e s) = now s" "format (dispatch r e s) = format s"
    "isConnected (dispatch r e s) = isConnected s" "isAutoActive (dispatch r e s) = isAutoActive s"
    "niche (dispatch r e s) = niche s" "tone (dispatch r e s) = tone s"
    "timeLeft (dispatch r e s) = timeLeft s" "intervals (dispatch r e s) = intervals s"
    "logins (dispatch r e s) = logins s"
  using assms by (elim disjE; simp add: handler_defs split: Run.splits list.splits)+

lemma step_active: "active (step i s) = active (dispatch (fst i) (snd i) s)"
  by (simp add: step_def active_def settle_same)

lemma idle_clock:
  assumes "invariant s" "\<not> isProcessing s"
  shows "timeLeft s = 60" "intervals s = []" "\<not> active s"
proof -
  show n: "\<not> active s" using assms by (auto simp: invariant_def)
  show "intervals s = []" using inactive_no_intervals [OF assms(1) n] .
  have "countdown_deps s \<noteq> Some (True, True)"
    using settled_deps(2) [OF assms(1)] n by (auto simp: active_def)
  then show "timeLeft s = 60" using assms(1) by (simp add: invariant_def clock_ok_def)
qed

lemma stale_after_end:
  assumes "invariant s" "isProcessing s" "\<not> isProcessing t" "upload_deps t = upload_deps s"
  shows "upload_stale t"
  using settled_deps(1) [OF assms(1)] assms(2,3,4)
  by (auto simp: upload_stale_def upload_effect_deps_def closure_def)

lemma fires_after_end:
  assumes "invariant s" "e = FetchRejected k \<or> e = StageTimeout k" "\<not> isProcessing (dispatch r e s)"
  shows "fires (dispatch r e s) = active s"
proof -
  let ?s1 = "dispatch r e s"
  have a: "active ?s1 = active s"
    using assms(2) run_event_same(3,4) [of e k undefined r s] by (auto simp: active_def)
  show ?thesis
  proof (cases "active s")
    case True
    then have "isProcessing s" using assms(1) by (simp add: invariant_def)
    then have "upload_stale ?s1"
      using stale_after_end [OF assms(1) _ assms(3)] by (simp add: dispatch_timer_fields)
    then show ?thesis using True a assms(3) by (simp add: fires_def)
  next
    case False
    then show ?thesis using a by (simp add: fires_def)
  qed
qed

lemma not_stale_run_event:
  assumes "invariant s" "e = FetchResolved k g \<or> e = StageTimeout k"
    "isProcessing (dispatch r e s) = isProcessing s"
  shows "settle r' (dispatch r e s) = dispatch r e s"
proof -
  have "\<not> stale s" using assms(1) by (simp add: invariant_def)
  then have "\<not> stale (dispatch r e s)"
    using assms(2,3) run_event_same [of e k g r s]
    by (auto simp: stale_def upload_stale_def countdown_stale_def upload_effect_deps_def
        countdown_effect_deps_def closure_def dispatch_timer_fields)
  then show ?thesis by (rule not_stale_settle)
qed

lemma step_store:
  assumes "invariant s"
  obtains (same) "uploads (step i s) = uploads s" "runs (step i s) = runs s"
  | (started) news where "news \<noteq> []" "isConnected (step i s)"
      "uploads (step i s) =
         map (\<lambda>n. initialRecord n (now (step i s)) (format (step i s))) (rev news) @ uploads s"
      "runs (step i s) = runs s @ map Fetching news"
  | (fetched) k newId g where "k < length (runs s)" "runs s ! k = Fetching newId"
      "snd i = FetchResolved k g"
      "uploads (step i s) = map (mark_stage newId g strategy_mapping) (uploads s)"
      "runs (step i s) = (runs s)[k := Sleeping newId g (tl stages) (now s + 2000)]"
  | (staged) k newId g st rest due where "k < length (runs s)"
      "runs s ! k = Sleeping newId g (st # rest) due" "due \<le> now s" "snd i = StageTimeout k"
      "uploads (step i s) = map (mark_stage newId g st) (uploads s)"
      "runs (step i s) = (runs s)[k := Sleeping newId g rest (now s + 2000)]"
  | (failed) k newId where "k < length (runs s)" "runs s ! k = Fetching newId"
      "snd i = FetchRejected k"
      "uploads (step i s) =
         (if active s then [initialRecord (rnd_id (fst i)) (now s) (format s)] else []) @
         map (mark_failed newId) (uploads s)"
      "runs (step i s) =
         remove_at k (runs s) @ (if active s then [Fetching (rnd_id (fst i))] else [])"
  | (published) k newId g due where "k < length (runs s)" "runs s ! k = Sleeping newId g [] due"
      "due \<le> now s" "snd i = StageTimeout k"
      "uploads (step i s) =
         (if active s then [initialRecord (rnd_id (fst i)) (now s) (format s)] else []) @
         map_uploaded newId (rnd_metrics (fst i)) 0 (uploads s)"
      "runs (step i s) =
         remove_at k (runs s) @ (if active s then [Fetching (rnd_id (fst i))] else [])"
proof -
  let ?s1 = "dispatch (fst i) (snd i) s"
  have d: "deps_ok s" and st: "\<not> stale s"
    using assms by (simp_all add: invariant_def)
  have su: "uploads (step i s) =
      (if fires ?s1 then initialRecord (rnd_id (fst i)) (now ?s1) (format ?s1) # uploads ?s1
       else uploads ?s1)"
    and sr: "runs (step i s) = (if fires ?s1 then runs ?s1 @ [Fetching (rnd_id (fst i))] else runs ?s1)"
    by (simp_all add: step_def settle_uploads settle_runs)
  have nf: "isProcessing ?s1 \<Longrightarrow> \<not> fires ?s1" by (simp add: fires_def)
  have sm: "now (step i s) = now ?s1" "format (step i s) = format ?s1"
    "isConnected (step i s) = isConnected ?s1"
    by (simp_all add: step_def settle_same)
  from d st show ?thesis
  proof (cases rule: dispatch_store [where r = "fst i" and e = "snd i"])
    case 1: same
    show ?thesis
    proof (cases "fires ?s1")
      case True
      then show ?thesis using 1 su sr sm
        by (intro started [of "[rnd_id (fst i)]"]) (simp_all add: fires_def active_def)
    next
      case False
      then show ?thesis using 1 su sr by (intro same) simp_all
    qed
  next
    case 2: (start news)
    have e: "now ?s1 = now s" "format ?s1 = format s" "isConnected ?s1 = isConnected s"
      using 2(4) by (auto simp: trigger_same)
    show ?thesis using 2 su sr sm e nf by (intro started [of news]) simp_all
  next
    case 3: (fetched k newId g)
    have "step i s = ?s1"
      unfolding step_def using not_stale_run_event [OF assms, of "snd i" k g "fst i"] 3 by simp
    then show ?thesis using 3 by (intro fetched [of k newId g]) simp_all
  next
    case 4: (failed k newId)
    have f: "fires ?s1 = active s" using fires_after_end [OF assms, of "snd i" k "fst i"] 4 by simp
    have e: "now ?s1 = now s" "format ?s1 = format s"
      using run_event_same(1,2) [of "snd i" k undefined "fst i" s] 4(3) by simp_all
    show ?thesis using 4 su sr f e by (intro failed [of k newId]) simp_all
  next
    case 5: (staged k newId g st' rest due)
    have "step i s = ?s1"
      unfolding step_def using not_stale_run_event [OF assms, of "snd i" k g "fst i"] 5 by simp
    then show ?thesis using 5 by (intro staged [of k newId g st' rest due]) simp_all
  next
    case 6: (published k newId g due)
    have f: "fires ?s1 = active s" using fires_after_end [OF assms, of "snd i" k "fst i"] 6 by simp
    have e: "now ?s1 = now s" "format ?s1 = format s"
      using run_event_same(1,2) [of "snd i" k undefined "fst i" s] 6(4) by simp_all
    show ?thesis using 6 su sr f e by (intro published [of k newId g due]) simp_all
  qed
qed

section \<open>The claims\<close>

text \<open>
  C7. In every state the component reaches, the countdown is within 1 and 60. While
  auto-mode is on and the gate connected, the countdown interval is live with a period of
  1000 ms, and each of its ticks takes the countdown down by one, from 1 back to 60,
  whatever the uploads do, and is due again 1000 ms later. Otherwise no interval is live
  and the countdown stands at 60.
\<close>

theorem countdown_in_range:
  assumes "s = exec ins mounted"
  shows "1 \<le> timeLeft s \<and> timeLeft s \<le> 60 \<and>
     (active s \<longrightarrow>
        (\<exists>i \<in> set (intervals s). iv_callback i = CountdownTick \<and> iv_period i = 1000)) \<and>
     (\<forall>i \<in> set (intervals s). iv_callback i = CountdownTick \<and> iv_due i \<le> now s \<longrightarrow>
        step (r, IntervalFire (iv_handle i)) s =
          s\<lparr>intervals := map (reschedule (iv_handle i)) (intervals s),
            timeLeft := (if 1 < timeLeft s then timeLeft s - 1 else 60)\<rparr> \<and>
        iv_due (reschedule (iv_handle i) i) = iv_due i + 1000) \<and>
     (\<not> active s \<longrightarrow> intervals s = [] \<and> timeLeft s = 60)"
proof -
  have inv: "invariant s" using assms by (simp add: invariant_reachable)
  then have c: "clock_ok s" and d: "deps_ok s" by (simp_all add: invariant_def)
  have 1: "1 \<le> timeLeft s \<and> timeLeft s \<le> 60" using c by (simp add: clock_ok_def)
  have 2: "active s \<longrightarrow>
      (\<exists>i \<in> set (intervals s). iv_callback i = CountdownTick \<and> iv_period i = 1000)"
    using active_intervals(1) [OF inv] by blast
  have 3: "step (r, IntervalFire (iv_handle i)) s =
          s\<lparr>intervals := map (reschedule (iv_handle i)) (intervals s),
            timeLeft := (if 1 < timeLeft s then timeLeft s - 1 else 60)\<rparr> \<and>
        iv_due (reschedule (iv_handle i) i) = iv_due i + 1000"
    if "i \<in> set (intervals s)" "iv_callback i = CountdownTick \<and> iv_due i \<le> now s" for i
  proof -
    have "iv_period i = 1000" using d that unfolding deps_ok_def by fastforce
    then show ?thesis using countdown_fire [OF inv that(1)] that(2) by (simp add: reschedule_def)
  qed
  have 4: "\<not> active s \<longrightarrow> intervals s = [] \<and> timeLeft s = 60"
  proof
    assume n: "\<not> active s"
    then have "countdown_deps s \<noteq> Some (True, True)"
      using settled_deps(2) [OF inv] by (auto simp: active_def)
    then show "intervals s = [] \<and> timeLeft s = 60"
      using inactive_no_intervals [OF inv n] c by (simp add: clock_ok_def)
  qed
  show ?thesis using 1 2 3 4 by blast
qed

theorem countdown_in_range_witness:
  "active (exec (connecting @ [(rnd ''a'', ToggleAuto), (rnd ''b'', Elapse 1000)]) mounted) \<and>
   timeLeft (exec (connecting @ [(rnd ''a'', ToggleAuto), (rnd ''b'', Elapse 1000)]) mounted) = 60 \<and>
   timeLeft (exec (connecting @ [(rnd ''a'', ToggleAuto), (rnd ''b'', Elapse 1000),
     (rnd ''b'', IntervalFire 2)]) mounted) = 59 \<and>
   \<not> active (exec connecting mounted) \<and> intervals (exec connecting mounted) = []"
proof -
  define s where "s = exec (connecting @ [(rnd ''a'', ToggleAuto), (rnd ''b'', Elapse 1000)]) mounted"
  define i where "i = \<lparr>iv_handle = 2, iv_due = 2500, iv_period = 1000, iv_callback = CountdownTick\<rparr>"
  have a: "active s" and t: "timeLeft s = 60" and m: "i \<in> set (intervals s)"
    and due: "iv_callback i = CountdownTick \<and> iv_due i \<le> now s"
    unfolding s_def i_def by (simp_all add: eval_defs)
  have "step (rnd ''b'', IntervalFire (iv_handle i)) s =
      s\<lparr>intervals := map (reschedule (iv_handle i)) (intervals s),
        timeLeft := (if 1 < timeLeft s then timeLeft s - 1 else 60)\<rparr>"
    using countdown_in_range [OF s_def, of "rnd ''b''"] m due by blast
  then have f: "timeLeft (step (rnd ''b'', IntervalFire 2) s) = 59"
    using t by (simp add: i_def)
  have e: "exec (connecting @ [(rnd ''a'', ToggleAuto), (rnd ''b'', Elapse 1000),
     (rnd ''b'', IntervalFire 2)]) mounted = step (rnd ''b'', IntervalFire 2) s"
    unfolding s_def by (simp add: connecting_def)
  have n: "\<not> active (exec connecting mounted)"
    by (simp add: eval_defs)
  have "intervals (exec connecting mounted) = []"
    using countdown_in_range [OF refl, of connecting "rnd ''a''"] n by blast
  then show ?thesis using a t f n unfolding e s_def by simp
qed

text \<open>
  C8. In every state the component reaches, no interval is live while the gate is
  disconnected. Turning auto-mode on there sets the flag and nothing else: no record is
  created, no call is started and no interval is armed. Disconnecting turns auto-mode
  off, leaves no interval live and starts no run. And whatever the event, a step that
  creates a record ends with the gate connected.
\<close>

theorem inert_while_disconnected:
  assumes "s = exec ins mounted"
  shows "(\<not> isConnected s \<longrightarrow>
        intervals s = [] \<and>
        uploads (step (r, ToggleAuto) s) = uploads s \<and>
        runs (step (r, ToggleAuto) s) = runs s \<and>
        isProcessing (step (r, ToggleAuto) s) = isProcessing s \<and>
        intervals (step (r, ToggleAuto) s) = []) \<and>
     \<not> isAutoActive (step (r, Disconnect) s) \<and>
     \<not> isConnected (step (r, Disconnect) s) \<and>
     intervals (step (r, Disconnect) s) = [] \<and>
     uploads (step (r, Disconnect) s) = uploads s \<and>
     (length (uploads (step i s)) \<noteq> length (uploads s) \<longrightarrow> isConnected (step i s))"
proof -
  have inv: "invariant s" using assms by (simp add: invariant_reachable)
  have inv': "\<And>j. invariant (step j s)" using inv by (rule invariant_step)
  have 1: "intervals s = [] \<and>
        uploads (step (r, ToggleAuto) s) = uploads s \<and>
        runs (step (r, ToggleAuto) s) = runs s \<and>
        isProcessing (step (r, ToggleAuto) s) = isProcessing s \<and>
        intervals (step (r, ToggleAuto) s) = []" if n: "\<not> isConnected s"
  proof -
    have a: "\<not> active s" using n by (simp add: active_def)
    have b: "\<not> active (dispatch r ToggleAuto s)" using n by (simp add: active_def)
    then have c: "\<not> active (step (r, ToggleAuto) s)" by (simp add: step_active)
    show ?thesis
      using inactive_no_intervals [OF inv a] inactive_no_intervals [OF inv' c] settle_store [OF b]
      by (simp add: step_def)
  qed
  have b: "\<not> active (dispatch r Disconnect s)" by (simp add: active_def handleDisconnect_def)
  then have c: "\<not> active (step (r, Disconnect) s)" by (simp add: step_active)
  have 2: "\<not> isAutoActive (step (r, Disconnect) s) \<and> \<not> isConnected (step (r, Disconnect) s) \<and>
     intervals (step (r, Disconnect) s) = [] \<and> uploads (step (r, Disconnect) s) = uploads s"
    using inactive_no_intervals [OF inv' c] settle_store [OF b]
    by (simp add: step_def settle_same handleDisconnect_def)
  have 3: "isConnected (step i s)" if l: "length (uploads (step i s)) \<noteq> length (uploads s)"
  proof (cases "fires (dispatch (fst i) (snd i) s)")
    case True
    then show ?thesis by (simp add: step_def settle_same fires_def active_def)
  next
    case False
    then have u: "uploads (step i s) = uploads (dispatch (fst i) (snd i) s)"
      by (simp add: step_def settle_uploads)
    have "deps_ok s" "\<not> stale s" using inv by (simp_all add: invariant_def)
    then show ?thesis
    proof (cases rule: dispatch_store [where r = "fst i" and e = "snd i"])
      case (start news)
      then show ?thesis
        by (auto simp: step_def settle_same trigger_same)
    qed (use l u in \<open>simp_all add: length_map_uploaded\<close>)
  qed
  show ?thesis using 1 2 3 by blast
qed

theorem inert_while_disconnected_witness:
  "\<not> isConnected mounted \<and>
   isAutoActive (step (rnd ''a'', ToggleAuto) mounted) \<and>
   uploads (step (rnd ''a'', ToggleAuto) mounted) = [] \<and>
   intervals (step (rnd ''a'', ToggleAuto) mounted) = [] \<and>
   isAutoActive (exec (connecting @ [(rnd ''a'', ToggleAuto)]) mounted) \<and>
   intervals (exec (connecting @ [(rnd ''a'', ToggleAuto)]) mounted) \<noteq> [] \<and>
   \<not> isAutoActive (exec (connecting @ [(rnd ''a'', ToggleAuto), (rnd ''b'', Disconnect)]) mounted) \<and>
   intervals (exec (connecting @ [(rnd ''a'', ToggleAuto), (rnd ''b'', Disconnect)]) mounted) = []"
proof -
  have n: "\<not> isConnected mounted" "uploads mounted = []"
    "isAutoActive (step (rnd ''a'', ToggleAuto) mounted)" by (simp_all add: eval_defs)
  have 1: "uploads (step (rnd ''a'', ToggleAuto) mounted) = [] \<and>
      intervals (step (rnd ''a'', ToggleAuto) mounted) = []"
    using inert_while_disconnected [of mounted "[]" "rnd ''a''"] n by simp
  define s where "s = exec (connecting @ [(rnd ''a'', ToggleAuto)]) mounted"
  have a: "isAutoActive s" "intervals s \<noteq> []" unfolding s_def by (simp_all add: eval_defs)
  have e: "exec (connecting @ [(rnd ''a'', ToggleAuto), (rnd ''b'', Disconnect)]) mounted =
      step (rnd ''b'', Disconnect) s"
    unfolding s_def by (simp add: connecting_def)
  have 2: "\<not> isAutoActive (step (rnd ''b'', Disconnect) s) \<and> intervals (step (rnd ''b'', Disconnect) s) = []"
    using inert_while_disconnected [OF s_def, of "rnd ''b''"] by blast
  show ?thesis using n 1 a 2 unfolding e by (simp add: s_def [symmetric])
qed

end
